theory Spec2Isabelle
  imports Main "HOL-Library.Word" "HOL-Library.AList"
begin

section \<open>JavaScript values\<close>

text \<open>
  Objects live in a heap and are named by their address. A value is a primitive, a
  reference to an object, a function (named by the function it is), the result of
  \<^verbatim>\<open>f.bind(obj)\<close>, which wraps a function value together with the receiver it
  was bound to, or the error object of an exception the runtime threw. A chunk of a byte
  stream is a sequence of octets.
\<close>

type_synonym addr = nat
type_synonym byte = "8 word"
type_synonym chunk = "byte list"

datatype jserr = TypeError

datatype jsval =
    VUndef
  | VNull
  | VBool bool
  | VNum int
  | VStr string
  | Ref addr
  | Fn string
  | Bound jsval addr
  | ErrObj jserr

text \<open>The truthiness test of \<^verbatim>\<open>if (v)\<close> and \<^verbatim>\<open>a && b\<close>.\<close>

fun truthy :: "jsval \<Rightarrow> bool" where
  "truthy VUndef = False"
| "truthy VNull = False"
| "truthy (VBool b) = b"
| "truthy (VNum n) = (n \<noteq> 0)"
| "truthy (VStr s) = (s \<noteq> [])"
| "truthy (Ref a) = True"
| "truthy (Fn f) = True"
| "truthy (Bound v a) = True"
| "truthy (ErrObj e) = True"

text \<open>
  The values for which \<^verbatim>\<open>typeof v === 'object'\<close> holds and that are not
  \<^verbatim>\<open>null\<close>. The \<^verbatim>\<open>error\<close> event of a stream carries such a value, an
  \<^verbatim>\<open>Error\<close> object.
\<close>

fun is_object :: "jsval \<Rightarrow> bool" where
  "is_object (Ref a) = True"
| "is_object (ErrObj e) = True"
| "is_object v = False"

text \<open>The settlement of the promise an \<^verbatim>\<open>async\<close> function returns.\<close>

datatype completion = Pending | Fulfilled | Rejected jsval

section \<open>The response drainer\<close>

text \<open>
  Both drain functions keep the two flags \<^verbatim>\<open>responseOpen\<close> and
  \<^verbatim>\<open>streamDone\<close>. The calls they make on their collaborators are recorded in the
  state: the chunks handed to \<^verbatim>\<open>response.write\<close>, the number of
  \<^verbatim>\<open>onWrite()\<close> calls, the number of \<^verbatim>\<open>response.end()\<close> calls and the
  number of calls that stop the source (\<^verbatim>\<open>stream.destroy()\<close> for a push-style
  source, \<^verbatim>\<open>reader.cancel()\<close> for a pull-style one). The calls
  \<^verbatim>\<open>response.write\<close>, \<^verbatim>\<open>response.end\<close> and \<^verbatim>\<open>onWrite\<close> are taken to
  return normally.
\<close>

record drain =
  responseOpen :: bool
  streamDone :: bool
  written :: "chunk list"
  onWrites :: nat
  ends :: nat
  stops :: nat

text \<open>What happens around a drain: the sink emits \<^verbatim>\<open>close\<close>, or the source acts.\<close>

datatype 'e drain_event = ResponseClose | Source 'e

subsection \<open>Pull style: \<^verbatim>\<open>streamReadableStreamToResponse\<close>\<close>

text \<open>
  The function is \<^verbatim>\<open>async\<close>: it runs up to its first \<^verbatim>\<open>await reader.read()\<close>,
  and each time the pending read settles it runs on to the next \<^verbatim>\<open>await\<close> or to its
  exit. The field \<open>promise\<close> is the promise the function returned: \<open>Pending\<close> while
  a read is awaited, \<open>Fulfilled\<close> after a normal exit, \<open>Rejected e\<close> after
  \<^verbatim>\<open>throw e\<close>. The stream is taken to be unlocked, so that \<^verbatim>\<open>getReader()\<close>
  returns.
\<close>

datatype read_result = RValue chunk | RDone | RThrow jsval

record pull_drain = drain +
  promise :: completion

text \<open>The state at the first \<^verbatim>\<open>await\<close>: both flags initialised, the loop entered.\<close>

definition streamReadableStreamToResponse :: pull_drain where
  "streamReadableStreamToResponse =
     \<lparr>responseOpen = True, streamDone = False, written = [], onWrites = 0,
      ends = 0, stops = 0, promise = Pending\<rparr>"

text \<open>The listener of \<^verbatim>\<open>response.on('close', ...)\<close>; it is never detached.\<close>

definition pull_onResponseClose :: "pull_drain \<Rightarrow> pull_drain" where
  "pull_onResponseClose d =
     (let d1 = d\<lparr>responseOpen := False\<rparr>
      in if \<not> streamDone d1 then d1\<lparr>streamDone := True, stops := stops d1 + 1\<rparr> else d1)"

text \<open>The \<^verbatim>\<open>finally\<close> block.\<close>

definition pull_finally :: "pull_drain \<Rightarrow> pull_drain" where
  "pull_finally d = (if responseOpen d then d\<lparr>ends := ends d + 1\<rparr> else d)"

text \<open>
  The code that runs when the awaited read settles: the rest of the loop body, the loop
  test, and on exit the \<^verbatim>\<open>catch\<close> and \<^verbatim>\<open>finally\<close> blocks.
\<close>

fun pull_afterRead :: "pull_drain \<Rightarrow> read_result \<Rightarrow> pull_drain" where
  "pull_afterRead d RDone = (pull_finally (d\<lparr>streamDone := True\<rparr>))\<lparr>promise := Fulfilled\<rparr>"
| "pull_afterRead d (RValue v) =
     (let d1 = d\<lparr>written := written d @ [v], onWrites := onWrites d + 1\<rparr>
      in if responseOpen d1 then d1 else (pull_finally d1)\<lparr>promise := Fulfilled\<rparr>)"
| "pull_afterRead d (RThrow e) = (pull_finally (d\<lparr>streamDone := True\<rparr>))\<lparr>promise := Rejected e\<rparr>"

fun pull_step :: "pull_drain \<Rightarrow> read_result drain_event \<Rightarrow> pull_drain" where
  "pull_step d ResponseClose = pull_onResponseClose d"
| "pull_step d (Source r) = (if promise d = Pending then pull_afterRead d r else d)"

definition pull_run :: "pull_drain \<Rightarrow> read_result drain_event list \<Rightarrow> pull_drain" where
  "pull_run d evs = foldl pull_step d evs"

subsection \<open>Push style: \<^verbatim>\<open>streamReadableToResponse\<close>\<close>

text \<open>
  The events of a push-style source, and the three listeners the function attaches to
  it. \<^verbatim>\<open>stream.on\<close> appends a listener to the source's table and
  \<^verbatim>\<open>stream.off\<close> removes one; an emitted event runs the listeners registered for
  it, in registration order, on the table as it was when the event was emitted.
\<close>

datatype evkind = KData | KEnd | KError | KClose

datatype 'c event = Data 'c | End | Error jsval | Close

fun kind_of :: "'c event \<Rightarrow> evkind" where
  "kind_of (Data c) = KData"
| "kind_of End = KEnd"
| "kind_of (Error e) = KError"
| "kind_of Close = KClose"

datatype drain_listener = OnData | OnEnd | OnClose

record push_drain = drain +
  attached :: "(evkind \<times> drain_listener) list"

definition stream_on :: "evkind \<Rightarrow> drain_listener \<Rightarrow> push_drain \<Rightarrow> push_drain" where
  "stream_on k l d = d\<lparr>attached := attached d @ [(k, l)]\<rparr>"

definition stream_off :: "evkind \<Rightarrow> drain_listener \<Rightarrow> push_drain \<Rightarrow> push_drain" where
  "stream_off k l d = d\<lparr>attached := rev (remove1 (k, l) (rev (attached d)))\<rparr>"

definition onData :: "chunk \<Rightarrow> push_drain \<Rightarrow> push_drain" where
  "onData c d = d\<lparr>written := written d @ [c], onWrites := onWrites d + 1\<rparr>"

definition onEnd :: "push_drain \<Rightarrow> push_drain" where
  "onEnd d = d\<lparr>streamDone := True\<rparr>"

definition onClose :: "push_drain \<Rightarrow> push_drain" where
  "onClose d =
     (let d1 = (if responseOpen d then d\<lparr>ends := ends d + 1\<rparr> else d)
      in stream_off KClose OnClose (stream_off KError OnClose
           (stream_off KEnd OnEnd (stream_off KData OnData d1))))"

text \<open>The state when the function returns: flags initialised, four listeners attached.\<close>

definition streamReadableToResponse :: push_drain where
  "streamReadableToResponse =
     stream_on KClose OnClose (stream_on KError OnClose
       (stream_on KEnd OnEnd (stream_on KData OnData
         \<lparr>responseOpen = True, streamDone = False, written = [], onWrites = 0,
          ends = 0, stops = 0, attached = []\<rparr>)))"

text \<open>The listener of \<^verbatim>\<open>response.on('close', ...)\<close>; it is never detached.\<close>

definition push_onResponseClose :: "push_drain \<Rightarrow> push_drain" where
  "push_onResponseClose d =
     (let d1 = d\<lparr>responseOpen := False\<rparr>
      in if \<not> streamDone d1 then d1\<lparr>streamDone := True, stops := stops d1 + 1\<rparr> else d1)"

fun run_drain_listener :: "chunk event \<Rightarrow> drain_listener \<Rightarrow> push_drain \<Rightarrow> push_drain" where
  "run_drain_listener (Data c) OnData d = onData c d"
| "run_drain_listener ev OnData d = d"
| "run_drain_listener ev OnEnd d = onEnd d"
| "run_drain_listener ev OnClose d = onClose d"

definition stream_emit :: "chunk event \<Rightarrow> push_drain \<Rightarrow> push_drain" where
  "stream_emit ev d =
     fold (run_drain_listener ev)
       (map snd (filter (\<lambda>(k, l). k = kind_of ev) (attached d))) d"

fun push_step :: "push_drain \<Rightarrow> chunk event drain_event \<Rightarrow> push_drain" where
  "push_step d ResponseClose = push_onResponseClose d"
| "push_step d (Source ev) = stream_emit ev d"

definition push_run :: "push_drain \<Rightarrow> chunk event drain_event list \<Rightarrow> push_drain" where
  "push_run d evs = foldl push_step d evs"

subsection \<open>Dispatch: \<^verbatim>\<open>streamToNodeResponse\<close>\<close>

text \<open>
  The body is absent, a push-style readable, or a pull-style stream (the one with
  \<^verbatim>\<open>getReader\<close>). The function is not \<^verbatim>\<open>async\<close>: it calls the drain function
  without \<^verbatim>\<open>await\<close> and without returning its promise. Its result is what its caller
  sees, \<open>Inr v\<close> for a return of \<open>v\<close> and \<open>Inl e\<close> for a throw of \<open>e\<close>, together with
  the drain it started. A missing \<^verbatim>\<open>onWrite\<close> is replaced by a function that does
  nothing; either way the drain only counts the calls.
\<close>

datatype body = NoBody | NodeReadable | WebReadableStream

datatype task = NoTask | PushTask push_drain | PullTask pull_drain

fun streamToNodeResponse :: "body \<Rightarrow> (jsval + jsval) \<times> task" where
  "streamToNodeResponse NoBody = (Inr VUndef, NoTask)"
| "streamToNodeResponse WebReadableStream = (Inr VUndef, PullTask streamReadableStreamToResponse)"
| "streamToNodeResponse NodeReadable = (Inr VUndef, PushTask streamReadableToResponse)"

section \<open>The push-to-pull adapter: \<^verbatim>\<open>requestToBodyStream\<close>\<close>

text \<open>
  A chunk of the push stream is a byte buffer in the heap, named by its address, so that
  a copy and an alias are different things. The pull stream's controller is seen through
  the calls made on it: the buffers handed to \<^verbatim>\<open>enqueue\<close>, whether
  \<^verbatim>\<open>close\<close> was called and the value given to \<^verbatim>\<open>error\<close>. As in the
  Streams standard, \<^verbatim>\<open>enqueue\<close> and \<^verbatim>\<open>close\<close> throw a
  \<^verbatim>\<open>TypeError\<close> on a controller that is closed or errored, and
  \<^verbatim>\<open>error\<close> does nothing on a stream that is no longer readable, which a
  closed or errored controller's stream is taken to be.
\<close>

record adapter =
  bufs :: "addr \<Rightarrow> byte list"
  nextbuf :: addr
  enqueued :: "addr list"
  closed :: bool
  errored :: "jsval option"

text \<open>
  \<^verbatim>\<open>new Uint8Array(x)\<close> on a typed array or a list of numbers allocates a new
  buffer and fills it with the elements; \<^verbatim>\<open>[...u]\<close> reads the elements of a
  typed array as numbers, and storing a number in a \<^verbatim>\<open>Uint8Array\<close> keeps it
  modulo 256.
\<close>

definition new_typed_array :: "byte list \<Rightarrow> adapter \<Rightarrow> addr \<times> adapter" where
  "new_typed_array bs a =
     (nextbuf a, a\<lparr>bufs := (bufs a)(nextbuf a := bs), nextbuf := Suc (nextbuf a)\<rparr>)"

definition spread :: "byte list \<Rightarrow> nat list" where
  "spread bs = map unat bs"

definition to_uint8 :: "nat \<Rightarrow> byte" where
  "to_uint8 n = of_nat (n mod 256)"

definition controller_enqueue :: "addr \<Rightarrow> adapter \<Rightarrow> jserr + adapter" where
  "controller_enqueue k a =
     (if closed a \<or> errored a \<noteq> None then Inl TypeError
      else Inr (a\<lparr>enqueued := enqueued a @ [k]\<rparr>))"

definition controller_close :: "adapter \<Rightarrow> jserr + adapter" where
  "controller_close a =
     (if closed a \<or> errored a \<noteq> None then Inl TypeError else Inr (a\<lparr>closed := True\<rparr>))"

definition controller_error :: "jsval \<Rightarrow> adapter \<Rightarrow> jserr + adapter" where
  "controller_error e a =
     (if closed a \<or> errored a \<noteq> None then Inr a else Inr (a\<lparr>errored := Some e\<rparr>))"

text \<open>
  The three listeners attached in \<^verbatim>\<open>start\<close>. The one for \<^verbatim>\<open>data\<close> is
  \<^verbatim>\<open>controller.enqueue(new KUint8Array([...new Uint8Array(chunk)]))\<close>. An
  exception thrown by a listener ends the run.
\<close>

fun adapter_listener :: "addr event \<Rightarrow> adapter \<Rightarrow> jserr + adapter" where
  "adapter_listener (Data chunk) a =
     (let (u, a1) = new_typed_array (bufs a chunk) a;
          (k, a2) = new_typed_array (map to_uint8 (spread (bufs a1 u))) a1
      in controller_enqueue k a2)"
| "adapter_listener End a = controller_close a"
| "adapter_listener (Error e) a = controller_error e a"
| "adapter_listener Close a = Inr a"

fun adapter_run :: "adapter \<Rightarrow> addr event list \<Rightarrow> jserr + adapter" where
  "adapter_run a [] = Inr a"
| "adapter_run a (ev # evs) =
     (case adapter_listener ev a of Inl e \<Rightarrow> Inl e | Inr a' \<Rightarrow> adapter_run a' evs)"

text \<open>
  The adapter over the heap \<open>h\<close>, whose addresses below \<open>n\<close> are in use: a
  controller on which nothing has been called yet.
\<close>

definition requestToBodyStream :: "(addr \<Rightarrow> byte list) \<Rightarrow> addr \<Rightarrow> adapter" where
  "requestToBodyStream h n = \<lparr>bufs = h, nextbuf = n, enqueued = [], closed = False, errored = None\<rparr>"

section \<open>The cloneable body\<close>

subsection \<open>Objects, listeners and streams\<close>

text \<open>
  An object is seen as \<^verbatim>\<open>for (const key in obj)\<close> sees it: its enumerable
  properties, own and inherited, in enumeration order. Reading a missing property gives
  \<^verbatim>\<open>undefined\<close>; assigning a property replaces its value or adds it at the end.
\<close>

type_synonym props = "(string \<times> jsval) list"

text \<open>\<^verbatim>\<open>typeof v === 'function'\<close>.\<close>

fun is_function :: "jsval \<Rightarrow> bool" where
  "is_function (Fn f) = True"
| "is_function (Bound v a) = True"
| "is_function v = False"

text \<open>
  The receiver of the call \<^verbatim>\<open>a.k(...)\<close>, where \<open>v\<close> is the value of
  \<^verbatim>\<open>a.k\<close>: a bound function runs with the receiver it was bound to first,
  whatever it is called on or bound to later; any other function runs with \<open>a\<close>.
  \<open>target\<close> is the function that finally runs.
\<close>

fun this_of :: "addr \<Rightarrow> jsval \<Rightarrow> addr" where
  "this_of a (Bound v b) = this_of b v"
| "this_of a v = a"

fun target :: "jsval \<Rightarrow> jsval" where
  "target (Bound v b) = target v"
| "target v = v"

text \<open>
  The closures the source registers as listeners, each with the event it is registered
  for: \<^verbatim>\<open>resolve\<close> on \<^verbatim>\<open>end\<close> and \<^verbatim>\<open>reject\<close> on \<^verbatim>\<open>error\<close>
  (from \<^verbatim>\<open>getCloneableBody\<close>), and the two listeners of
  \<^verbatim>\<open>cloneBodyStream\<close>, which close over \<^verbatim>\<open>p1\<close> and \<^verbatim>\<open>p2\<close>.
\<close>

datatype listener = EndResolve | ErrorReject | DataTee addr addr | EndTee addr addr

fun listens_to :: "listener \<Rightarrow> evkind" where
  "listens_to EndResolve = KEnd"
| "listens_to ErrorReject = KError"
| "listens_to (DataTee p1 p2) = KData"
| "listens_to (EndTee p1 p2) = KEnd"

text \<open>
  The readable side of a stream, as far as \<^verbatim>\<open>push\<close> changes it: the chunks pushed,
  whether \<^verbatim>\<open>push(null)\<close> has ended it, and whether the stream has signalled an
  error of its own (Node does for a chunk pushed after the end).
\<close>

record rstate =
  pushed :: "chunk list"
  ended :: bool
  failed :: bool

definition empty_rstate :: rstate where
  "empty_rstate = \<lparr>pushed = [], ended = False, failed = False\<rparr>"

text \<open>
  \<^verbatim>\<open>endPromise\<close>: pending, resolved with \<^verbatim>\<open>undefined\<close> by \<^verbatim>\<open>end\<close>, or
  resolved with \<^verbatim>\<open>{ error }\<close> by the \<^verbatim>\<open>catch\<close> after \<^verbatim>\<open>error\<close>.
\<close>

datatype end_state = Waiting | EndSeen | ErrorSeen jsval

text \<open>
  The heap and the closure state of \<^verbatim>\<open>getCloneableBody\<close>. As in Node, a stream
  object keeps its listener table and its readable state in the objects its properties
  \<^verbatim>\<open>_events\<close> and \<^verbatim>\<open>_readableState\<close> refer to, and its methods reach them
  through \<^verbatim>\<open>this\<close>; so an object that is given another stream's properties shares
  that stream's table and state. Addresses from \<open>nxt\<close> on are not in use.
  \<open>readable\<close>, \<open>buffered\<close> and \<open>endPromise\<close> are the variables of the closure.
\<close>

record world =
  objs :: "addr \<Rightarrow> props"
  tables :: "addr \<Rightarrow> listener list"
  rstates :: "addr \<Rightarrow> rstate"
  nxt :: addr
  readable :: addr
  buffered :: "addr option"
  endPromise :: end_state

definition get_prop :: "world \<Rightarrow> addr \<Rightarrow> string \<Rightarrow> jsval" where
  "get_prop w a k = (case map_of (objs w a) k of Some v \<Rightarrow> v | None \<Rightarrow> VUndef)"

definition set_prop :: "addr \<Rightarrow> string \<Rightarrow> jsval \<Rightarrow> world \<Rightarrow> world" where
  "set_prop a k v w = w\<lparr>objs := (objs w)(a := AList.update k v (objs w a))\<rparr>"

text \<open>
  The receiver with which the method \<^verbatim>\<open>a.k\<close> runs, if \<^verbatim>\<open>a.k\<close> is a function;
  the listener table and the readable state an object's properties refer to.
\<close>

definition method_this :: "world \<Rightarrow> addr \<Rightarrow> string \<Rightarrow> addr option" where
  "method_this w a k =
     (let v = get_prop w a k in if is_function v then Some (this_of a v) else None)"

definition events_of :: "world \<Rightarrow> addr \<Rightarrow> addr option" where
  "events_of w a = (case get_prop w a ''_events'' of Ref e \<Rightarrow> Some e | _ \<Rightarrow> None)"

definition rstate_of :: "world \<Rightarrow> addr \<Rightarrow> addr option" where
  "rstate_of w a = (case get_prop w a ''_readableState'' of Ref r \<Rightarrow> Some r | _ \<Rightarrow> None)"

text \<open>
  \<^verbatim>\<open>a.on(event, listener)\<close> appends the listener to the table of the receiver.
  Calling what is not a function throws a \<^verbatim>\<open>TypeError\<close>, and so does, here, a
  receiver without a listener table.
\<close>

definition js_on :: "addr \<Rightarrow> listener \<Rightarrow> world \<Rightarrow> jserr + world" where
  "js_on a l w =
     (case method_this w a ''on'' of
        None \<Rightarrow> Inl TypeError
      | Some t \<Rightarrow>
          (case events_of w t of
             None \<Rightarrow> Inl TypeError
           | Some e \<Rightarrow> Inr (w\<lparr>tables := (tables w)(e := tables w e @ [l])\<rparr>)))"

text \<open>
  \<^verbatim>\<open>a.push(chunk)\<close>, and \<^verbatim>\<open>a.push(null)\<close> for \<open>None\<close>, on the readable state
  of the receiver.
\<close>

fun readable_push :: "chunk option \<Rightarrow> rstate \<Rightarrow> rstate" where
  "readable_push None s = s\<lparr>ended := True\<rparr>"
| "readable_push (Some c) s =
     (if ended s then s\<lparr>failed := True\<rparr> else s\<lparr>pushed := pushed s @ [c]\<rparr>)"

definition js_push :: "addr \<Rightarrow> chunk option \<Rightarrow> world \<Rightarrow> jserr + world" where
  "js_push a x w =
     (case method_this w a ''push'' of
        None \<Rightarrow> Inl TypeError
      | Some t \<Rightarrow>
          (case rstate_of w t of
             None \<Rightarrow> Inl TypeError
           | Some r \<Rightarrow> Inr (w\<lparr>rstates := (rstates w)(r := readable_push x (rstates w r))\<rparr>)))"

text \<open>A promise is settled once: a later \<^verbatim>\<open>resolve\<close> or \<^verbatim>\<open>reject\<close> does nothing.\<close>

definition settle :: "end_state \<Rightarrow> world \<Rightarrow> world" where
  "settle s w = (if endPromise w = Waiting then w\<lparr>endPromise := s\<rparr> else w)"

text \<open>
  What each listener does when its event is emitted. An emitted event runs the
  listeners that the emitter's table holds for it, in registration order; an exception
  thrown by one of them ends the emission. (Node's \<^verbatim>\<open>emit\<close> itself throws, to
  the emitter, for an \<^verbatim>\<open>error\<close> event that finds no listener; that is the
  emitter's affair and not part of the state here.) Which events a stream emits, and when, is up
  to the stream: to the transport for the request, to Node for a
  \<^verbatim>\<open>PassThrough\<close>, which emits the chunks pushed into it once it is read. The
  chunk a listener is given is a sequence of bytes here, and both branches of a tee are
  given the same one.
\<close>

fun run_listener :: "listener \<Rightarrow> chunk event \<Rightarrow> world \<Rightarrow> jserr + world" where
  "run_listener EndResolve ev w = Inr (settle EndSeen w)"
| "run_listener ErrorReject (Error e) w = Inr (settle (ErrorSeen e) w)"
| "run_listener (DataTee p1 p2) (Data c) w =
     (case js_push p1 (Some c) w of Inl e \<Rightarrow> Inl e | Inr w1 \<Rightarrow> js_push p2 (Some c) w1)"
| "run_listener (EndTee p1 p2) ev w =
     (case js_push p1 None w of Inl e \<Rightarrow> Inl e | Inr w1 \<Rightarrow> js_push p2 None w1)"
| "run_listener l ev w = Inr w"

fun run_listeners :: "listener list \<Rightarrow> chunk event \<Rightarrow> world \<Rightarrow> jserr + world" where
  "run_listeners [] ev w = Inr w"
| "run_listeners (l # ls) ev w =
     (case run_listener l ev w of Inl e \<Rightarrow> Inl e | Inr w1 \<Rightarrow> run_listeners ls ev w1)"

definition emit :: "addr \<Rightarrow> chunk event \<Rightarrow> world \<Rightarrow> jserr + world" where
  "emit a ev w =
     (case events_of w a of
        None \<Rightarrow> Inr w
      | Some e \<Rightarrow> run_listeners (filter (\<lambda>l. listens_to l = kind_of ev) (tables w e)) ev w)"

fun emits :: "addr \<Rightarrow> chunk event list \<Rightarrow> world \<Rightarrow> jserr + world" where
  "emits a [] w = Inr w"
| "emits a (ev # evs) w =
     (case emit a ev w of Inl e \<Rightarrow> Inl e | Inr w1 \<Rightarrow> emits a evs w1)"

text \<open>
  \<^verbatim>\<open>new PassThrough()\<close>: a new object with a listener table and a readable state of
  its own, both empty, and the stream methods, not bound to anything.
\<close>

definition passthrough_props :: "addr \<Rightarrow> addr \<Rightarrow> props" where
  "passthrough_props e r =
     [(''_readableState'', Ref r), (''_events'', Ref e),
      (''on'', Fn ''on''), (''push'', Fn ''push''), (''read'', Fn ''read'')]"

definition new_PassThrough :: "world \<Rightarrow> addr \<times> world" where
  "new_PassThrough w =
     (let a = nxt w
      in (a, w\<lparr>objs := (objs w)(a := passthrough_props (a + 1) (a + 2)),
               tables := (tables w)(a + 1 := []),
               rstates := (rstates w)(a + 2 := empty_rstate),
               nxt := a + 3\<rparr>))"

subsection \<open>\<^verbatim>\<open>replaceRequestBody\<close>\<close>

text \<open>
  One turn of the loop over the keys of \<open>stream\<close>, and the loop. The keys are those
  \<open>stream\<close> has when the loop starts; each value is read when its key is reached.
\<close>

definition replace_step :: "addr \<Rightarrow> addr \<Rightarrow> string \<Rightarrow> world \<Rightarrow> world" where
  "replace_step base stream key w =
     (let v = get_prop w stream key;
          v' = (if is_function v then Bound v base else v)
      in set_prop base key v' w)"

definition replaceRequestBody :: "addr \<Rightarrow> addr \<Rightarrow> world \<Rightarrow> world" where
  "replaceRequestBody base stream w =
     fold (replace_step base stream) (map fst (objs w stream)) w"

subsection \<open>\<^verbatim>\<open>getCloneableBody\<close>, \<^verbatim>\<open>cloneBodyStream\<close> and \<^verbatim>\<open>finalize\<close>\<close>

text \<open>
  \<^verbatim>\<open>getCloneableBody(readable)\<close> sets \<^verbatim>\<open>buffered\<close> to \<^verbatim>\<open>null\<close> and runs the
  promise's executor, which registers the two listeners. An exception in the executor
  rejects the promise, and the \<^verbatim>\<open>catch\<close> turns that into \<^verbatim>\<open>{ error }\<close>.
\<close>

definition getCloneableBody :: "addr \<Rightarrow> world \<Rightarrow> world" where
  "getCloneableBody r w =
     (let w0 = w\<lparr>readable := r, buffered := None, endPromise := Waiting\<rparr>
      in case js_on r EndResolve w0 of
           Inl e \<Rightarrow> w0\<lparr>endPromise := ErrorSeen (ErrObj e)\<rparr>
         | Inr w1 \<Rightarrow>
             (case js_on r ErrorReject w1 of
                Inl e \<Rightarrow> w1\<lparr>endPromise := ErrorSeen (ErrObj e)\<rparr>
              | Inr w2 \<Rightarrow> w2))"

text \<open>\<^verbatim>\<open>buffered ?? readable\<close>.\<close>

definition input_of :: "world \<Rightarrow> addr" where
  "input_of w = (case buffered w of Some b \<Rightarrow> b | None \<Rightarrow> readable w)"

definition cloneBodyStream :: "world \<Rightarrow> jserr + addr \<times> world" where
  "cloneBodyStream w =
     (let input = input_of w;
          (p1, w1) = new_PassThrough w;
          (p2, w2) = new_PassThrough w1
      in case js_on input (DataTee p1 p2) w2 of
           Inl e \<Rightarrow> Inl e
         | Inr w3 \<Rightarrow>
             (case js_on input (EndTee p1 p2) w3 of
                Inl e \<Rightarrow> Inl e
              | Inr w4 \<Rightarrow> Inr (p1, w4\<lparr>buffered := Some p2\<rparr>)))"

text \<open>
  \<^verbatim>\<open>finalize\<close> is \<^verbatim>\<open>async\<close>. \<open>finalize_resume\<close> is the code after
  \<^verbatim>\<open>await endPromise\<close>: while the promise is pending the call stays suspended
  (\<open>Pending\<close>), and it runs \<open>finalize_resume\<close> on the state of the moment the promise
  is settled. \<open>finalize_replace\<close> is its last two statements;
  \<^verbatim>\<open>for (const key in null)\<close> runs no turn.
\<close>

definition finalize_replace :: "world \<Rightarrow> world" where
  "finalize_replace w =
     (let w1 = (case buffered w of
                  Some b \<Rightarrow> replaceRequestBody (readable w) b w
                | None \<Rightarrow> w)
      in w1\<lparr>buffered := Some (readable w)\<rparr>)"

definition finalize_resume :: "world \<Rightarrow> completion \<times> world" where
  "finalize_resume w =
     (case endPromise w of
        Waiting \<Rightarrow> (Pending, w)
      | EndSeen \<Rightarrow> (Fulfilled, finalize_replace w)
      | ErrorSeen e \<Rightarrow>
          if truthy e then (Rejected e, w) else (Fulfilled, finalize_replace w))"

definition finalize :: "world \<Rightarrow> completion \<times> world" where
  "finalize w = (case buffered w of None \<Rightarrow> (Fulfilled, w) | Some b \<Rightarrow> finalize_resume w)"

text \<open>What a branch has been given so far.\<close>

definition branch_state :: "world \<Rightarrow> addr \<Rightarrow> rstate" where
  "branch_state w a =
     (case rstate_of w a of Some r \<Rightarrow> rstates w r | None \<Rightarrow> empty_rstate)"

definition received :: "world \<Rightarrow> addr \<Rightarrow> chunk list" where
  "received w a = pushed (branch_state w a)"

text \<open>The operations a pipeline performs on a cloneable body and its streams.\<close>

datatype op = Emit addr "chunk event" | Clone | Finalize

fun do_op :: "op \<Rightarrow> world \<Rightarrow> world" where
  "do_op (Emit a ev) w = (case emit a ev w of Inr w1 \<Rightarrow> w1 | Inl e \<Rightarrow> w)"
| "do_op Clone w = (case cloneBodyStream w of Inr (p, w1) \<Rightarrow> w1 | Inl e \<Rightarrow> w)"
| "do_op Finalize w = snd (finalize w)"

subsection \<open>An example\<close>

text \<open>
  A request object at address 0 with its listener table at 1 and its readable state at
  2; the cloneable body made of it; that body after \<^verbatim>\<open>cloneBodyStream()\<close>; and the
  cloned body after the request has emitted two chunks and \<^verbatim>\<open>end\<close>.
\<close>

definition incoming_props :: props where
  "incoming_props =
     [(''_readableState'', Ref 2), (''_events'', Ref 1), (''on'', Fn ''on''),
      (''push'', Fn ''push''), (''read'', Fn ''read''), (''url'', VStr ''/''),
      (''setTimeout'', Fn ''setTimeout'')]"

definition world0 :: world where
  "world0 = \<lparr>objs = (\<lambda>_. [])(0 := incoming_props), tables = (\<lambda>_. []),
     rstates = (\<lambda>_. empty_rstate), nxt = 3,
     readable = 0, buffered = None, endPromise = Waiting\<rparr>"

definition ex_body :: world where
  "ex_body = getCloneableBody 0 world0"

definition ex_cloned :: world where
  "ex_cloned = (case cloneBodyStream ex_body of Inr (p, w) \<Rightarrow> w | Inl e \<Rightarrow> ex_body)"

definition ex_ended :: world where
  "ex_ended =
     (case emits 0 [Data [1, 2], Data [3], End] ex_cloned of Inr w \<Rightarrow> w | Inl e \<Rightarrow> ex_cloned)"

section \<open>Definitions used in the proofs\<close>

subsection \<open>Invariants of the drains\<close>

definition pull_inv :: "pull_drain \<Rightarrow> bool" where
  "pull_inv d = (ends d \<le> (if promise d = Pending then 0 else 1))"

definition all_attached :: "(evkind \<times> drain_listener) list" where
  "all_attached = [(KData, OnData), (KEnd, OnEnd), (KError, OnClose), (KClose, OnClose)]"

definition stop_inv :: "'a drain_scheme \<Rightarrow> bool" where
  "stop_inv d = (stops d \<le> (if streamDone d then 1 else 0))"

text \<open>
  Whether, in a sequence of events, a read settles with \<^verbatim>\<open>done\<close> or with an
  error before the sink emits \<^verbatim>\<open>close\<close>.
\<close>

fun settles_while_open :: "read_result drain_event list \<Rightarrow> bool" where
  "settles_while_open [] = False"
| "settles_while_open (ResponseClose # evs) = False"
| "settles_while_open (Source (RValue c) # evs) = settles_while_open evs"
| "settles_while_open (Source RDone # evs) = True"
| "settles_while_open (Source (RThrow e) # evs) = True"

text \<open>
  What a source whose drain has stopped it still hands to the drain. The pull-style drain
  has one read pending: if that read settles with a chunk, it is this chunk. The
  push-style drain has its listeners attached until the source emits \<^verbatim>\<open>error\<close>
  or \<^verbatim>\<open>close\<close>: it is every chunk emitted until then.
\<close>

fun pending_read_chunk :: "read_result drain_event list \<Rightarrow> chunk list" where
  "pending_read_chunk [] = []"
| "pending_read_chunk (ResponseClose # evs) = pending_read_chunk evs"
| "pending_read_chunk (Source (RValue c) # evs) = [c]"
| "pending_read_chunk (Source RDone # evs) = []"
| "pending_read_chunk (Source (RThrow e) # evs) = []"

fun late_data :: "chunk event drain_event list \<Rightarrow> chunk list" where
  "late_data [] = []"
| "late_data (ResponseClose # evs) = late_data evs"
| "late_data (Source (Data c) # evs) = c # late_data evs"
| "late_data (Source End # evs) = late_data evs"
| "late_data (Source (Error e) # evs) = []"
| "late_data (Source Close # evs) = []"

subsection \<open>Well-formed states of a cloneable body\<close>

text \<open>
  A branch is a stream made by \<^verbatim>\<open>new PassThrough()\<close> whose properties nothing has
  changed. An emitter is an object whose \<^verbatim>\<open>on\<close> runs on the object itself and
  finds a listener table. A state is well formed when the original stream is an emitter
  with distinct keys, every tee listener pushes into branches, \<^verbatim>\<open>buffered\<close> is
  \<^verbatim>\<open>null\<close>, a branch or the original stream, and, while the promise is pending, its
  two listeners are registered on the original stream. \<^verbatim>\<open>getCloneableBody\<close> on a
  request makes such a state and every operation keeps it
  (\<open>wf_getCloneableBody\<close>, \<open>wf_do_ops\<close>).
\<close>

definition branch :: "world \<Rightarrow> addr \<Rightarrow> bool" where
  "branch w a =
     (a \<noteq> readable w \<and> a + 2 < nxt w \<and> objs w a = passthrough_props (a + 1) (a + 2))"

fun targets :: "listener \<Rightarrow> addr list" where
  "targets (DataTee a b) = [a, b]"
| "targets (EndTee a b) = [a, b]"
| "targets l = []"

definition listener_ok :: "world \<Rightarrow> listener \<Rightarrow> bool" where
  "listener_ok w l = list_all (branch w) (targets l)"

definition emitter :: "world \<Rightarrow> addr \<Rightarrow> bool" where
  "emitter w a =
     (method_this w a ''on'' = Some a \<and>
      (case events_of w a of Some e \<Rightarrow> e < nxt w | None \<Rightarrow> False))"

definition listening :: "world \<Rightarrow> bool" where
  "listening w =
     (case events_of w (readable w) of
        Some e \<Rightarrow> EndResolve \<in> set (tables w e) \<and> ErrorReject \<in> set (tables w e)
      | None \<Rightarrow> False)"

definition well_formed :: "world \<Rightarrow> bool" where
  "well_formed w =
     (readable w < nxt w \<and>
      (\<forall>e. list_all (listener_ok w) (tables w e)) \<and>
      distinct (map fst (objs w (readable w))) \<and>
      emitter w (readable w) \<and>
      (case buffered w of None \<Rightarrow> True | Some b \<Rightarrow> b = readable w \<or> branch w b) \<and>
      (if endPromise w = Waiting then listening w else True))"

subsection \<open>What the operations do to a well-formed state\<close>

text \<open>
  In a well-formed state no call throws, and each operation is the total function
  given here (\<open>wf_emit\<close>, \<open>clone_eq\<close>, \<open>finalize_cases\<close>).
\<close>

definition rebind :: "addr \<Rightarrow> jsval \<Rightarrow> jsval" where
  "rebind base v = (if is_function v then Bound v base else v)"

definition push_to :: "chunk option \<Rightarrow> addr \<Rightarrow> world \<Rightarrow> world" where
  "push_to x a w = w\<lparr>rstates := (rstates w)(a + 2 := readable_push x (rstates w (a + 2)))\<rparr>"

fun listener_effect :: "chunk event \<Rightarrow> listener \<Rightarrow> world \<Rightarrow> world" where
  "listener_effect ev EndResolve w = settle EndSeen w"
| "listener_effect (Error e) ErrorReject w = settle (ErrorSeen e) w"
| "listener_effect (Data c) (DataTee a b) w = push_to (Some c) b (push_to (Some c) a w)"
| "listener_effect ev (EndTee a b) w = push_to None b (push_to None a w)"
| "listener_effect ev l w = w"

definition emit_effect :: "addr \<Rightarrow> chunk event \<Rightarrow> world \<Rightarrow> world" where
  "emit_effect a ev w =
     (case events_of w a of
        None \<Rightarrow> w
      | Some e \<Rightarrow> fold (listener_effect ev) (filter (\<lambda>l. listens_to l = kind_of ev) (tables w e)) w)"

definition emits_effect :: "addr \<Rightarrow> chunk event list \<Rightarrow> world \<Rightarrow> world" where
  "emits_effect a evs w = fold (emit_effect a) evs w"

definition same_heap :: "world \<Rightarrow> world \<Rightarrow> bool" where
  "same_heap w w' =
     (objs w' = objs w \<and> tables w' = tables w \<and> nxt w' = nxt w \<and>
      readable w' = readable w \<and> buffered w' = buffered w)"

text \<open>What an event of the input does to a branch that is teed from it.\<close>

fun branch_sees :: "chunk event \<Rightarrow> rstate \<Rightarrow> rstate" where
  "branch_sees (Data c) s = readable_push (Some c) s"
| "branch_sees End s = readable_push None s"
| "branch_sees ev s = s"

text \<open>
  The table \<open>e\<close> ends with the two tee listeners of the branches \<open>p1\<close> and \<open>p2\<close>,
  and no listener before them pushes into either.
\<close>

definition teed :: "world \<Rightarrow> addr \<Rightarrow> addr \<Rightarrow> addr \<Rightarrow> bool" where
  "teed w e p1 p2 =
     (p1 \<noteq> p2 \<and> list_all (listener_ok w) (tables w e) \<and>
      (\<exists>old. tables w e = old @ [DataTee p1 p2, EndTee p1 p2] \<and>
         list_all (\<lambda>l. p1 \<notin> set (targets l) \<and> p2 \<notin> set (targets l)) old))"

definition alloc_effect :: "world \<Rightarrow> world" where
  "alloc_effect w = snd (new_PassThrough w)"

definition attach :: "addr \<Rightarrow> listener \<Rightarrow> world \<Rightarrow> world" where
  "attach e l w = w\<lparr>tables := (tables w)(e := tables w e @ [l])\<rparr>"

definition clone_effect :: "addr \<Rightarrow> world \<Rightarrow> world" where
  "clone_effect e w =
     (let p1 = nxt w; p2 = p1 + 3
      in (attach e (EndTee p1 p2) (attach e (DataTee p1 p2) (alloc_effect (alloc_effect w))))
           \<lparr>buffered := Some p2\<rparr>)"

definition finalize_effect :: "addr \<Rightarrow> world \<Rightarrow> world" where
  "finalize_effect b w = (replaceRequestBody (readable w) b w)\<lparr>buffered := Some (readable w)\<rparr>"

subsection \<open>States that differ only in how often a method was bound\<close>

text \<open>
  Two values are the same to a caller of \<^verbatim>\<open>a.k(...)\<close> when they are equal or are
  functions with the same target and the same receiver. Two states are the same up to
  binding when they differ at most in such values of the original stream's properties.
\<close>

definition same_value :: "addr \<Rightarrow> jsval \<Rightarrow> jsval \<Rightarrow> bool" where
  "same_value a v v' =
     (if is_function v then is_function v' \<and> target v' = target v \<and> this_of a v' = this_of a v
      else v' = v)"

definition same_object :: "addr \<Rightarrow> props \<Rightarrow> props \<Rightarrow> bool" where
  "same_object a ps qs =
     (map fst qs = map fst ps \<and>
      list_all (\<lambda>(k, v). case map_of qs k of Some v' \<Rightarrow> same_value a v v' | None \<Rightarrow> False) ps)"

definition same_world :: "world \<Rightarrow> world \<Rightarrow> bool" where
  "same_world w w' =
     (tables w' = tables w \<and> rstates w' = rstates w \<and> nxt w' = nxt w \<and>
      readable w' = readable w \<and> buffered w' = buffered w \<and> endPromise w' = endPromise w \<and>
      (\<forall>a. a \<noteq> readable w \<longrightarrow> objs w' a = objs w a) \<and>
      same_object (readable w) (objs w (readable w)) (objs w' (readable w)))"

section \<open>Properties of the response drainer\<close>

lemma pull_onResponseClose_simps [simp]:
  "ends (pull_onResponseClose d) = ends d"
  "promise (pull_onResponseClose d) = promise d"
  "written (pull_onResponseClose d) = written d"
  "responseOpen (pull_onResponseClose d) = False"
  "streamDone (pull_onResponseClose d) = True"
  "stops (pull_onResponseClose d) = (if streamDone d then stops d else stops d + 1)"
  by (simp_all add: pull_onResponseClose_def Let_def)

lemma pull_afterRead_responseOpen [simp]:
  "responseOpen (pull_afterRead d r) = responseOpen d"
  by (cases r) (simp_all add: pull_finally_def Let_def)

lemma pull_afterRead_stops [simp]: "stops (pull_afterRead d r) = stops d"
  by (cases r) (simp_all add: pull_finally_def Let_def)

lemma pull_step_inv: "pull_inv d \<Longrightarrow> pull_inv (pull_step d ev)"
proof (cases ev)
  case ResponseClose
  then show ?thesis if "pull_inv d" using that by (simp add: pull_inv_def)
next
  case (Source r)
  then show ?thesis if "pull_inv d" using that
    by (cases r) (auto simp: pull_inv_def pull_finally_def Let_def split: if_splits)
qed

lemma pull_run_inv: "pull_inv d \<Longrightarrow> pull_inv (pull_run d evs)"
  unfolding pull_run_def
  by (induction evs arbitrary: d) (simp_all add: pull_step_inv)

lemma pull_step_exited:
  "promise d \<noteq> Pending \<Longrightarrow> promise (pull_step d ev) = promise d \<and> ends (pull_step d ev) = ends d"
  by (cases ev) simp_all

lemma pull_run_exited:
  "promise d \<noteq> Pending \<Longrightarrow> promise (pull_run d evs) = promise d \<and> ends (pull_run d evs) = ends d"
  unfolding pull_run_def
  by (induction evs arbitrary: d) (simp_all add: pull_step_exited)

lemma pull_step_exit:
  assumes "promise d = Pending" "pull_inv d" "promise (pull_step d ev) \<noteq> Pending"
  shows "ends (pull_step d ev) = (if responseOpen (pull_step d ev) then 1 else 0)"
proof (cases ev)
  case ResponseClose
  with assms show ?thesis by simp
next
  case (Source r)
  with assms show ?thesis
    by (cases r) (auto simp: pull_inv_def pull_finally_def Let_def split: if_splits)
qed

lemma pull_run_append: "pull_run d (xs @ ys) = pull_run (pull_run d xs) ys"
  by (simp add: pull_run_def)

lemma pull_run_single: "pull_run d [ev] = pull_step d ev"
  by (simp add: pull_run_def)

lemma pull_inv_start: "pull_inv streamReadableStreamToResponse"
  by (simp add: pull_inv_def streamReadableStreamToResponse_def)

lemma pull_step_responseOpen:
  "responseOpen (pull_step d ev) = (responseOpen d \<and> ev \<noteq> ResponseClose)"
  by (cases ev) simp_all

lemma pull_run_responseOpen:
  "responseOpen (pull_run d evs) = (responseOpen d \<and> ResponseClose \<notin> set evs)"
  unfolding pull_run_def
  by (induction evs arbitrary: d) (auto simp: pull_step_responseOpen simp del: pull_step.simps)

lemma responseOpen_start: "responseOpen streamReadableStreamToResponse"
  by (simp add: streamReadableStreamToResponse_def)

lemma pull_step_closed_ends: "\<not> responseOpen d \<Longrightarrow> ends (pull_step d ev) = ends d"
proof (cases ev)
  case ResponseClose
  then show ?thesis by simp
next
  case (Source r)
  then show ?thesis if "\<not> responseOpen d" using that
    by (cases r) (simp_all add: pull_finally_def Let_def)
qed

lemma pull_run_closed_ends: "\<not> responseOpen d \<Longrightarrow> ends (pull_run d evs) = ends d"
proof (induction evs arbitrary: d)
  case Nil
  then show ?case by (simp add: pull_run_def)
next
  case (Cons ev evs)
  have "\<not> responseOpen (pull_step d ev)"
    using Cons.prems by (simp add: pull_step_responseOpen)
  from Cons.IH [OF this] pull_step_closed_ends [OF Cons.prems, of ev]
  show ?case by (simp add: pull_run_def)
qed

lemma pull_exit_paths:
  "promise d = Pending \<Longrightarrow>
   promise (pull_step d (Source r)) =
     (case r of RDone \<Rightarrow> Fulfilled | RThrow e \<Rightarrow> Rejected e
      | RValue c \<Rightarrow> if responseOpen d then Pending else Fulfilled)"
  by (cases r) (simp_all add: Let_def)

lemma pull_run_ends_trace:
  "promise d = Pending \<Longrightarrow> responseOpen d \<Longrightarrow> ends d = 0 \<Longrightarrow>
   ends (pull_run d evs) = (if settles_while_open evs then 1 else 0)"
proof (induction evs arbitrary: d rule: settles_while_open.induct)
  case 1
  then show ?case by (simp add: pull_run_def)
next
  case (2 evs)
  have "\<not> responseOpen (pull_step d ResponseClose)" by simp
  from pull_run_closed_ends [OF this, of evs] "2.prems" show ?case
    by (simp add: pull_run_def)
next
  case (3 c evs)
  let ?d1 = "pull_step d (Source (RValue c))"
  have "promise ?d1 = Pending" "responseOpen ?d1" "ends ?d1 = 0"
    using "3.prems" by (simp_all add: Let_def)
  from "3.IH" [OF this] show ?case by (simp add: pull_run_def)
next
  case (4 evs)
  let ?d1 = "pull_step d (Source RDone)"
  have "promise ?d1 \<noteq> Pending" "ends ?d1 = 1"
    using "4.prems" by (simp_all add: pull_finally_def)
  with pull_run_exited [of ?d1 evs] show ?case by (simp add: pull_run_def)
next
  case (5 e evs)
  let ?d1 = "pull_step d (Source (RThrow e))"
  have "promise ?d1 \<noteq> Pending" "ends ?d1 = 1"
    using "5.prems" by (simp_all add: pull_finally_def)
  with pull_run_exited [of ?d1 evs] show ?case by (simp add: pull_run_def)
qed

text \<open>
  Claim C4. In the pull-style drain \<^verbatim>\<open>response.end()\<close> is called at most once,
  whatever the reader and the sink do. The drain leaves its loop when a read settles:
  with \<^verbatim>\<open>done\<close>, with an error, or with a chunk after the sink has emitted
  \<^verbatim>\<open>close\<close>; a chunk read while the sink is open keeps it in the loop. From the
  exit on, \<^verbatim>\<open>end()\<close> has been called exactly once if the sink had emitted no
  \<^verbatim>\<open>close\<close> before the exit and not at all if it had, and later events do not
  change that. No \<^verbatim>\<open>close\<close> of the sink is ever followed by a call of
  \<^verbatim>\<open>end()\<close>. In terms of the events alone: \<^verbatim>\<open>end()\<close> has been called
  once if a read settled with \<^verbatim>\<open>done\<close> or with an error before the sink
  emitted \<^verbatim>\<open>close\<close>, and never otherwise.
\<close>

theorem pull_drain_ends_sink_once:
  "ends (pull_run streamReadableStreamToResponse evs) \<le> 1 \<and>
   (\<forall>pre ev post.
      evs = pre @ ev # post \<and>
      promise (pull_run streamReadableStreamToResponse pre) = Pending \<and>
      promise (pull_run streamReadableStreamToResponse (pre @ [ev])) \<noteq> Pending \<longrightarrow>
      ends (pull_run streamReadableStreamToResponse evs) =
        (if ResponseClose \<in> set pre then 0 else 1)) \<and>
   (\<forall>pre post.
      evs = pre @ ResponseClose # post \<longrightarrow>
      ends (pull_run streamReadableStreamToResponse evs) =
        ends (pull_run streamReadableStreamToResponse pre)) \<and>
   (\<forall>pre r post.
      evs = pre @ Source r # post \<and>
      promise (pull_run streamReadableStreamToResponse pre) = Pending \<longrightarrow>
      promise (pull_run streamReadableStreamToResponse (pre @ [Source r])) =
        (case r of RDone \<Rightarrow> Fulfilled | RThrow e \<Rightarrow> Rejected e
         | RValue c \<Rightarrow> if ResponseClose \<in> set pre then Fulfilled else Pending)) \<and>
   ends (pull_run streamReadableStreamToResponse evs) =
     (if settles_while_open evs then 1 else 0)"
proof (intro conjI allI impI)
  have "pull_inv (pull_run streamReadableStreamToResponse evs)"
    by (rule pull_run_inv [OF pull_inv_start])
  then show "ends (pull_run streamReadableStreamToResponse evs) \<le> 1"
    by (simp add: pull_inv_def split: if_splits)
next
  fix pre ev post
  let ?S = streamReadableStreamToResponse
  assume a: "evs = pre @ ev # post \<and> promise (pull_run ?S pre) = Pending \<and>
      promise (pull_run ?S (pre @ [ev])) \<noteq> Pending"
  let ?d = "pull_run ?S pre"
  have inv: "pull_inv ?d" by (rule pull_run_inv [OF pull_inv_start])
  have ex: "promise (pull_step ?d ev) \<noteq> Pending"
    using a by (simp add: pull_run_append pull_run_single)
  then have src: "ev \<noteq> ResponseClose" using a by auto
  have e1: "ends (pull_step ?d ev) = (if responseOpen (pull_step ?d ev) then 1 else 0)"
    using pull_step_exit [OF _ inv ex] a by simp
  have op: "responseOpen (pull_step ?d ev) = (ResponseClose \<notin> set pre)"
    using src by (simp add: pull_step_responseOpen pull_run_responseOpen responseOpen_start)
  have "pull_run ?S evs = pull_run (pull_step ?d ev) post"
    using a by (simp add: pull_run_def)
  then have "ends (pull_run ?S evs) = ends (pull_step ?d ev)"
    using pull_run_exited [OF ex, of post] by simp
  with e1 op show "ends (pull_run ?S evs) = (if ResponseClose \<in> set pre then 0 else 1)"
    by simp
next
  fix pre post
  let ?S = streamReadableStreamToResponse
  assume a: "evs = pre @ ResponseClose # post"
  let ?d = "pull_step (pull_run ?S pre) ResponseClose"
  have c: "\<not> responseOpen ?d" by simp
  have "pull_run ?S evs = pull_run ?d post"
    using a by (simp add: pull_run_def)
  with pull_run_closed_ends [OF c, of post]
  show "ends (pull_run ?S evs) = ends (pull_run ?S pre)" by simp
next
  fix pre r post
  let ?S = streamReadableStreamToResponse
  assume a: "evs = pre @ Source r # post \<and> promise (pull_run ?S pre) = Pending"
  then have p: "promise (pull_run ?S pre) = Pending" by simp
  show "promise (pull_run ?S (pre @ [Source r])) =
        (case r of RDone \<Rightarrow> Fulfilled | RThrow e \<Rightarrow> Rejected e
         | RValue c \<Rightarrow> if ResponseClose \<in> set pre then Fulfilled else Pending)"
    using pull_exit_paths [OF p, of r]
    by (simp add: pull_run_append pull_run_single pull_run_responseOpen responseOpen_start
          del: pull_step.simps split: read_result.splits)
next
  show "ends (pull_run streamReadableStreamToResponse evs) =
     (if settles_while_open evs then 1 else 0)"
    by (rule pull_run_ends_trace) (simp_all add: streamReadableStreamToResponse_def)
qed

theorem pull_drain_ends_sink_once_witness:
  "promise (pull_run streamReadableStreamToResponse [Source (RValue [1]), ResponseClose]) = Pending \<and>
   promise (pull_run streamReadableStreamToResponse
      ([Source (RValue [1]), ResponseClose] @ [Source (RValue [2])])) \<noteq> Pending \<and>
   ends (pull_run streamReadableStreamToResponse
      ([Source (RValue [1]), ResponseClose] @ Source (RValue [2]) # [ResponseClose])) = 0 \<and>
   promise (pull_run streamReadableStreamToResponse [Source (RValue [1])]) = Pending \<and>
   promise (pull_run streamReadableStreamToResponse ([Source (RValue [1])] @ [Source RDone])) \<noteq> Pending \<and>
   ends (pull_run streamReadableStreamToResponse
      ([Source (RValue [1])] @ Source RDone # [ResponseClose])) = 1"
  using pull_drain_ends_sink_once [of "[Source (RValue [1]), ResponseClose] @ Source (RValue [2]) # [ResponseClose]",
      THEN conjunct2, THEN conjunct1, rule_format,
      of "[Source (RValue [1]), ResponseClose]" "Source (RValue [2])" "[ResponseClose]"]
    pull_drain_ends_sink_once [of "[Source (RValue [1])] @ Source RDone # [ResponseClose]",
      THEN conjunct2, THEN conjunct1, rule_format, of "[Source (RValue [1])]" "Source RDone" "[ResponseClose]"]
  by (simp add: pull_run_def streamReadableStreamToResponse_def pull_finally_def Let_def)

lemma attached_start: "attached streamReadableToResponse = all_attached"
  by (simp add: streamReadableToResponse_def stream_on_def all_attached_def)

lemma push_run_append: "push_run d (xs @ ys) = push_run (push_run d xs) ys"
  by (simp add: push_run_def)

lemma push_data_step:
  "attached d = all_attached \<Longrightarrow>
   push_step d (Source (Data c)) = d\<lparr>written := written d @ [c], onWrites := onWrites d + 1\<rparr>"
  by (simp add: stream_emit_def all_attached_def onData_def)

lemma push_data_prefix:
  "attached d = all_attached \<Longrightarrow>
   push_run d (map (\<lambda>c. Source (Data c)) cs) =
     d\<lparr>written := written d @ cs, onWrites := onWrites d + length cs\<rparr>"
proof (induction cs arbitrary: d)
  case Nil
  then show ?case by (simp add: push_run_def)
next
  case (Cons c cs)
  let ?d1 = "d\<lparr>written := written d @ [c], onWrites := onWrites d + 1\<rparr>"
  have "push_run d (map (\<lambda>c. Source (Data c)) (c # cs)) =
        push_run ?d1 (map (\<lambda>c. Source (Data c)) cs)"
    using Cons.prems by (simp add: push_run_def push_data_step del: push_step.simps)
  also have "\<dots> = ?d1\<lparr>written := written ?d1 @ cs, onWrites := onWrites ?d1 + length cs\<rparr>"
    using Cons.prems by (intro Cons.IH) simp_all
  finally show ?case by simp
qed

lemma push_closes:
  "\<not> streamDone d \<Longrightarrow>
   push_run d (replicate (Suc m) ResponseClose) =
     d\<lparr>responseOpen := False, streamDone := True, stops := stops d + 1\<rparr>"
proof (induction m)
  case 0
  then show ?case by (simp add: push_run_def push_onResponseClose_def Let_def)
next
  case (Suc m)
  have "push_run d (replicate (Suc (Suc m)) ResponseClose) =
        push_run (push_run d (replicate (Suc m) ResponseClose)) [ResponseClose]"
    unfolding push_run_append [symmetric] by (simp add: replicate_append_same)
  also have "\<dots> = d\<lparr>responseOpen := False, streamDone := True, stops := stops d + 1\<rparr>"
    using Suc by (simp add: push_run_def push_onResponseClose_def Let_def)
  finally show ?case .
qed

text \<open>Once its listeners are detached the push-style drain takes no part in what the source does.\<close>

lemma push_step_detached:
  assumes "attached d = []" "streamDone d"
  shows "written (push_step d ev) = written d \<and> stops (push_step d ev) = stops d \<and>
         attached (push_step d ev) = [] \<and> streamDone (push_step d ev)"
  using assms by (cases ev) (simp_all add: push_onResponseClose_def Let_def stream_emit_def)

lemma push_run_detached:
  "attached d = [] \<Longrightarrow> streamDone d \<Longrightarrow>
   written (push_run d evs) = written d \<and> stops (push_run d evs) = stops d"
proof (induction evs arbitrary: d)
  case Nil
  then show ?case by (simp add: push_run_def)
next
  case (Cons ev evs)
  from push_step_detached [OF Cons.prems, of ev] Cons.IH [of "push_step d ev"]
  show ?case by (simp add: push_run_def)
qed

lemma stream_emit_data:
  "attached d = all_attached \<Longrightarrow> stream_emit (Data c) d = onData c d"
  by (simp add: stream_emit_def all_attached_def)

lemma stream_emit_end:
  "attached d = all_attached \<Longrightarrow> stream_emit End d = onEnd d"
  by (simp add: stream_emit_def all_attached_def)

lemma stream_emit_detaches:
  "attached d = all_attached \<Longrightarrow> kind_of ev = KError \<or> kind_of ev = KClose \<Longrightarrow>
   stream_emit ev d = onClose d \<and> attached (onClose d) = [] \<and>
   written (onClose d) = written d \<and> stops (onClose d) = stops d \<and>
   streamDone (onClose d) = streamDone d"
  by (cases ev) (simp_all add: stream_emit_def all_attached_def onClose_def stream_off_def Let_def)

lemma push_run_stopped:
  "attached d = all_attached \<Longrightarrow> streamDone d \<Longrightarrow>
   written (push_run d evs) = written d @ late_data evs \<and> stops (push_run d evs) = stops d"
proof (induction evs arbitrary: d rule: late_data.induct)
  case 1
  then show ?case by (simp add: push_run_def)
next
  case (2 evs)
  have "push_step d ResponseClose = d\<lparr>responseOpen := False\<rparr>"
    using "2.prems" by (simp add: push_onResponseClose_def Let_def)
  with "2.IH" [of "d\<lparr>responseOpen := False\<rparr>"] "2.prems" show ?case
    by (simp add: push_run_def)
next
  case (3 c evs)
  have "push_step d (Source (Data c)) = onData c d"
    using "3.prems" by (simp add: stream_emit_data)
  with "3.IH" [of "onData c d"] "3.prems" show ?case
    by (simp add: push_run_def onData_def)
next
  case (4 evs)
  have "push_step d (Source End) = onEnd d"
    using "4.prems" by (simp add: stream_emit_end)
  with "4.IH" [of "onEnd d"] "4.prems" show ?case
    by (simp add: push_run_def onEnd_def)
next
  case (5 e evs)
  from stream_emit_detaches [OF "5.prems"(1), of "Error e"] "5.prems"(2)
    push_run_detached [of "onClose d" evs]
  show ?case by (simp add: push_run_def)
next
  case (6 evs)
  from stream_emit_detaches [OF "6.prems"(1), of Close] "6.prems"(2)
    push_run_detached [of "onClose d" evs]
  show ?case by (simp add: push_run_def)
qed

lemma pull_data_prefix:
  "promise d = Pending \<Longrightarrow> responseOpen d \<Longrightarrow>
   pull_run d (map (\<lambda>c. Source (RValue c)) cs) =
     d\<lparr>written := written d @ cs, onWrites := onWrites d + length cs\<rparr>"
proof (induction cs arbitrary: d)
  case Nil
  then show ?case by (simp add: pull_run_def)
next
  case (Cons c cs)
  let ?d1 = "d\<lparr>written := written d @ [c], onWrites := onWrites d + 1\<rparr>"
  have "pull_run d (map (\<lambda>c. Source (RValue c)) (c # cs)) =
        pull_run ?d1 (map (\<lambda>c. Source (RValue c)) cs)"
    using Cons.prems by (simp add: pull_run_def Let_def)
  also have "\<dots> = ?d1\<lparr>written := written ?d1 @ cs, onWrites := onWrites ?d1 + length cs\<rparr>"
    using Cons.prems by (intro Cons.IH) simp_all
  finally show ?case by simp
qed

lemma pull_closes:
  "\<not> streamDone d \<Longrightarrow>
   pull_run d (replicate (Suc m) ResponseClose) =
     d\<lparr>responseOpen := False, streamDone := True, stops := stops d + 1\<rparr>"
proof (induction m)
  case 0
  then show ?case by (simp add: pull_run_def pull_onResponseClose_def Let_def)
next
  case (Suc m)
  have "pull_run d (replicate (Suc (Suc m)) ResponseClose) =
        pull_run (pull_run d (replicate (Suc m) ResponseClose)) [ResponseClose]"
    unfolding pull_run_append [symmetric] by (simp add: replicate_append_same)
  also have "\<dots> = d\<lparr>responseOpen := False, streamDone := True, stops := stops d + 1\<rparr>"
    using Suc by (simp add: pull_run_def pull_onResponseClose_def Let_def)
  finally show ?case .
qed

text \<open>After its exit the pull-style drain reads and writes nothing.\<close>

lemma pull_step_exited_frame:
  assumes "promise d \<noteq> Pending" "streamDone d"
  shows "written (pull_step d ev) = written d \<and> stops (pull_step d ev) = stops d \<and>
         promise (pull_step d ev) = promise d \<and> streamDone (pull_step d ev)"
  using assms by (cases ev) simp_all

lemma pull_run_exited_frame:
  "promise d \<noteq> Pending \<Longrightarrow> streamDone d \<Longrightarrow>
   written (pull_run d evs) = written d \<and> stops (pull_run d evs) = stops d"
proof (induction evs arbitrary: d)
  case Nil
  then show ?case by (simp add: pull_run_def)
next
  case (Cons ev evs)
  from pull_step_exited_frame [OF Cons.prems, of ev] Cons.IH [of "pull_step d ev"] Cons.prems
  show ?case by (simp add: pull_run_def)
qed

lemma pull_run_stopped:
  "promise d = Pending \<Longrightarrow> \<not> responseOpen d \<Longrightarrow> streamDone d \<Longrightarrow>
   written (pull_run d evs) = written d @ pending_read_chunk evs \<and>
   stops (pull_run d evs) = stops d"
proof (induction evs arbitrary: d rule: pending_read_chunk.induct)
  case 1
  then show ?case by (simp add: pull_run_def)
next
  case (2 evs)
  have "pull_step d ResponseClose = d\<lparr>responseOpen := False\<rparr>"
    using "2.prems" by (simp add: pull_onResponseClose_def Let_def)
  with "2.IH" [of "d\<lparr>responseOpen := False\<rparr>"] "2.prems" show ?case
    by (simp add: pull_run_def)
next
  case (3 c evs)
  let ?d1 = "pull_step d (Source (RValue c))"
  have s: "promise ?d1 \<noteq> Pending" "streamDone ?d1" "written ?d1 = written d @ [c]"
    "stops ?d1 = stops d"
    using "3.prems" by (simp_all add: Let_def pull_finally_def)
  from pull_run_exited_frame [OF s(1,2), of evs] s(3,4) show ?case
    by (simp add: pull_run_def)
next
  case (4 evs)
  let ?d1 = "pull_step d (Source RDone)"
  have s: "promise ?d1 \<noteq> Pending" "streamDone ?d1" "written ?d1 = written d"
    "stops ?d1 = stops d"
    using "4.prems" by (simp_all add: Let_def pull_finally_def)
  from pull_run_exited_frame [OF s(1,2), of evs] s(3,4) show ?case
    by (simp add: pull_run_def)
next
  case (5 e evs)
  let ?d1 = "pull_step d (Source (RThrow e))"
  have s: "promise ?d1 \<noteq> Pending" "streamDone ?d1" "written ?d1 = written d"
    "stops ?d1 = stops d"
    using "5.prems" by (simp_all add: Let_def pull_finally_def)
  from pull_run_exited_frame [OF s(1,2), of evs] s(3,4) show ?case
    by (simp add: pull_run_def)
qed

lemma fold_listener_stop_inv:
  "stop_inv d \<Longrightarrow> stop_inv (fold (run_drain_listener ev) ls d)"
proof (induction ls arbitrary: d)
  case Nil
  then show ?case by simp
next
  case (Cons l ls)
  have "stop_inv (run_drain_listener ev l d)"
    using Cons.prems
    by (cases l; cases ev)
       (auto simp: stop_inv_def onData_def onEnd_def onClose_def stream_off_def Let_def
             split: if_splits)
  from Cons.IH [OF this] show ?case by simp
qed

lemma push_step_stop_inv: "stop_inv d \<Longrightarrow> stop_inv (push_step d ev)"
proof (cases ev)
  case ResponseClose
  then show ?thesis if "stop_inv d" using that
    by (auto simp: stop_inv_def push_onResponseClose_def Let_def split: if_splits)
next
  case (Source e)
  then show ?thesis if "stop_inv d" using that
    by (simp add: fold_listener_stop_inv stream_emit_def)
qed

lemma push_run_stop_inv: "stop_inv d \<Longrightarrow> stop_inv (push_run d evs)"
  unfolding push_run_def
  by (induction evs arbitrary: d) (simp_all add: push_step_stop_inv del: push_step.simps)

lemma pull_step_stop_inv: "stop_inv d \<Longrightarrow> stop_inv (pull_step d ev)"
proof (cases ev)
  case ResponseClose
  then show ?thesis if "stop_inv d" using that
    by (auto simp: stop_inv_def split: if_splits)
next
  case (Source r)
  then show ?thesis if "stop_inv d" using that
    by (cases r) (auto simp: stop_inv_def pull_finally_def Let_def split: if_splits)
qed

lemma pull_run_stop_inv: "stop_inv d \<Longrightarrow> stop_inv (pull_run d evs)"
  unfolding pull_run_def
  by (induction evs arbitrary: d) (simp_all add: pull_step_stop_inv del: pull_step.simps)

lemma drain_stops_at_most_once:
  "stops (push_run streamReadableToResponse evs) \<le> 1 \<and>
   stops (pull_run streamReadableStreamToResponse evs') \<le> 1"
proof -
  have "stop_inv streamReadableToResponse"
    by (simp add: stop_inv_def streamReadableToResponse_def stream_on_def)
  from push_run_stop_inv [OF this, of evs] have 1: "stops (push_run streamReadableToResponse evs) \<le> 1"
    by (simp add: stop_inv_def split: if_splits)
  have "stop_inv streamReadableStreamToResponse"
    by (simp add: stop_inv_def streamReadableStreamToResponse_def)
  from pull_run_stop_inv [OF this, of evs'] have "stops (pull_run streamReadableStreamToResponse evs') \<le> 1"
    by (simp add: stop_inv_def split: if_splits)
  with 1 show ?thesis by simp
qed

text \<open>
  Claim C5, as amended. The sink signals \<^verbatim>\<open>close\<close> once or several times after
  the chunks \<open>cs\<close> have been written, with more of the source still to come. Whatever
  happens afterwards, the source is stopped exactly once: \<^verbatim>\<open>stream.destroy()\<close>
  for a push-style source, \<^verbatim>\<open>reader.cancel()\<close> for a pull-style one. The drain
  holds no chunk back that the stopped source still delivers: the pull-style drain
  writes the chunk of its pending read, if that read settles with a chunk, and reads no
  more; the push-style drain writes every chunk the source emits before its
  \<^verbatim>\<open>error\<close> or \<^verbatim>\<open>close\<close> event detaches the listeners. These are the only
  chunks written after \<open>cs\<close>. On every sequence of events the source is stopped at
  most once.
\<close>

theorem drain_stops_source_once:
  "stops (push_run streamReadableToResponse
      (map (\<lambda>c. Source (Data c)) cs @ replicate (Suc m) ResponseClose @ rest)) = 1 \<and>
   written (push_run streamReadableToResponse
      (map (\<lambda>c. Source (Data c)) cs @ replicate (Suc m) ResponseClose @ rest)) =
     cs @ late_data rest \<and>
   stops (pull_run streamReadableStreamToResponse
      (map (\<lambda>c. Source (RValue c)) cs @ replicate (Suc m) ResponseClose @ rest')) = 1 \<and>
   written (pull_run streamReadableStreamToResponse
      (map (\<lambda>c. Source (RValue c)) cs @ replicate (Suc m) ResponseClose @ rest')) =
     cs @ pending_read_chunk rest' \<and>
   stops (push_run streamReadableToResponse evs) \<le> 1 \<and>
   stops (pull_run streamReadableStreamToResponse evs') \<le> 1"
proof -
  let ?P = streamReadableToResponse and ?Q = streamReadableStreamToResponse
  have p0: "stops ?P = 0" "\<not> streamDone ?P" "written ?P = []"
    by (simp_all add: streamReadableToResponse_def stream_on_def)
  let ?p1 = "push_run ?P (map (\<lambda>c. Source (Data c)) cs)"
  have p1: "stops ?p1 = 0" "\<not> streamDone ?p1" "written ?p1 = cs" "attached ?p1 = all_attached"
    using p0 by (simp_all add: push_data_prefix [OF attached_start] attached_start)
  let ?p2 = "push_run ?p1 (replicate (Suc m) ResponseClose)"
  have p2: "stops ?p2 = 1" "streamDone ?p2" "written ?p2 = cs" "attached ?p2 = all_attached"
    using p1 by (simp_all add: push_closes del: replicate_Suc)
  have q0: "stops ?Q = 0" "\<not> streamDone ?Q" "written ?Q = []" "promise ?Q = Pending" "responseOpen ?Q"
    by (simp_all add: streamReadableStreamToResponse_def)
  let ?q1 = "pull_run ?Q (map (\<lambda>c. Source (RValue c)) cs)"
  have q1: "stops ?q1 = 0" "\<not> streamDone ?q1" "written ?q1 = cs" "promise ?q1 = Pending"
    using q0 by (simp_all add: pull_data_prefix)
  let ?q2 = "pull_run ?q1 (replicate (Suc m) ResponseClose)"
  have q2: "stops ?q2 = 1" "streamDone ?q2" "written ?q2 = cs" "promise ?q2 = Pending"
    "\<not> responseOpen ?q2"
    using q1 by (simp_all add: pull_closes del: replicate_Suc)
  show ?thesis
    using push_run_stopped [OF p2(4,2), of rest] pull_run_stopped [OF q2(4,5,2), of rest'] p2(1,3) q2(1,3)
      drain_stops_at_most_once [of evs evs']
    by (simp add: push_run_append pull_run_append del: replicate_Suc)
qed

text \<open>
  Claim C5 as stated fails: a chunk that the source delivers after the sink has closed
  is written. The pull-style drain has written one chunk and awaits the next read when
  the sink closes; the read settles with a second chunk, and it is written. The
  push-style drain has written one chunk when the sink closes; the source emits two
  more chunks, and both are written. Either source has been stopped once.
\<close>

theorem chunk_written_after_sink_close:
  "written (pull_run streamReadableStreamToResponse
     [Source (RValue [1]), ResponseClose, Source (RValue [2])]) = [[1], [2]] \<and>
   stops (pull_run streamReadableStreamToResponse
     [Source (RValue [1]), ResponseClose, Source (RValue [2])]) = 1 \<and>
   written (push_run streamReadableToResponse
     [Source (Data [1]), ResponseClose, Source (Data [2]), Source (Data [3])]) = [[1], [2], [3]] \<and>
   stops (push_run streamReadableToResponse
     [Source (Data [1]), ResponseClose, Source (Data [2]), Source (Data [3])]) = 1"
  by code_simp

lemma pull_run_settled:
  "promise d \<noteq> Pending \<Longrightarrow> promise (pull_run d evs) = promise d"
proof (induction evs arbitrary: d)
  case Nil
  then show ?case by (simp add: pull_run_def)
next
  case (Cons ev evs)
  have "promise (pull_step d ev) = promise d"
    using Cons.prems by (cases ev) simp_all
  with Cons.IH [of "pull_step d ev"] Cons.prems show ?case by (simp add: pull_run_def)
qed

text \<open>
  Claim C7, as amended. When the awaited \<^verbatim>\<open>read()\<close> throws \<open>e\<close>, the drain sets
  \<^verbatim>\<open>streamDone\<close> and re-raises \<open>e\<close>: the promise of
  \<^verbatim>\<open>streamReadableStreamToResponse\<close> is rejected with \<open>e\<close> and stays so.
  \<^verbatim>\<open>streamToNodeResponse\<close> neither awaits nor returns that promise: it returns
  \<^verbatim>\<open>undefined\<close> to its caller for every body.
\<close>

theorem read_error_rejects_drain:
  "promise d = Pending \<Longrightarrow>
   streamDone (pull_step d (Source (RThrow e))) \<and>
   promise (pull_step d (Source (RThrow e))) = Rejected e \<and>
   promise (pull_run (pull_step d (Source (RThrow e))) post) = Rejected e \<and>
   fst (streamToNodeResponse b) = Inr VUndef"
proof -
  assume p: "promise d = Pending"
  have 1: "streamDone (pull_step d (Source (RThrow e)))"
    using p by (simp add: pull_finally_def)
  have 2: "promise (pull_step d (Source (RThrow e))) = Rejected e"
    using p by simp
  have 3: "promise (pull_run (pull_step d (Source (RThrow e))) post) = Rejected e"
    using pull_run_settled [of "pull_step d (Source (RThrow e))" post] 2 by simp
  have 4: "fst (streamToNodeResponse b) = Inr VUndef"
    by (cases b) simp_all
  from 1 2 3 4 show ?thesis by simp
qed

theorem read_error_rejects_drain_witness:
  "promise streamReadableStreamToResponse = Pending \<and>
   streamDone (pull_step streamReadableStreamToResponse (Source (RThrow (Ref 7)))) \<and>
   promise (pull_step streamReadableStreamToResponse (Source (RThrow (Ref 7)))) = Rejected (Ref 7) \<and>
   promise (pull_run (pull_step streamReadableStreamToResponse (Source (RThrow (Ref 7))))
      [ResponseClose, Source RDone]) = Rejected (Ref 7) \<and>
   fst (streamToNodeResponse WebReadableStream) = Inr VUndef"
proof -
  have h: "promise streamReadableStreamToResponse = Pending"
    by (simp add: streamReadableStreamToResponse_def)
  show ?thesis
    using h read_error_rejects_drain [OF h, of "Ref 7" "[ResponseClose, Source RDone]" WebReadableStream]
    by simp
qed

text \<open>
  Claim C7 as stated fails: for a pull-style body whose first read throws, the drain's
  promise is rejected with the error, and the call of \<^verbatim>\<open>streamToNodeResponse\<close>
  has returned \<^verbatim>\<open>undefined\<close>; it did not throw the error.
\<close>

theorem caller_does_not_observe_read_error:
  "snd (streamToNodeResponse WebReadableStream) = PullTask streamReadableStreamToResponse \<and>
   promise (pull_run streamReadableStreamToResponse [Source (RThrow (Ref 7))]) = Rejected (Ref 7) \<and>
   fst (streamToNodeResponse WebReadableStream) \<noteq> Inl (Ref 7)"
  by (simp add: pull_run_def streamReadableStreamToResponse_def)

section \<open>Properties of the push-to-pull adapter\<close>

lemma to_uint8_unat [simp]: "to_uint8 (unat b) = b"
proof -
  have "unat b < 2 ^ LENGTH(8)" by (rule unsigned_less)
  then have "unat b mod 256 = unat b" by simp
  then show ?thesis by (simp add: to_uint8_def)
qed

lemma to_uint8_spread [simp]: "map to_uint8 (spread bs) = bs"
  by (simp add: spread_def comp_def)

lemma to_uint8_wraps: "to_uint8 300 = 44"
  by (simp add: to_uint8_def)

lemma adapter_run_append:
  "adapter_run a (xs @ ys) =
     (case adapter_run a xs of Inl e \<Rightarrow> Inl e | Inr a' \<Rightarrow> adapter_run a' ys)"
  by (induction xs arbitrary: a) (simp_all split: sum.splits)

lemma adapter_data_step:
  assumes "\<not> closed a" "errored a = None"
  shows "adapter_listener (Data c) a =
     Inr (a\<lparr>bufs := (bufs a)(nextbuf a := bufs a c, Suc (nextbuf a) := bufs a c),
            nextbuf := Suc (Suc (nextbuf a)),
            enqueued := enqueued a @ [Suc (nextbuf a)]\<rparr>)"
  using assms by (simp add: new_typed_array_def controller_enqueue_def)

lemma adapter_data_run:
  assumes "\<not> closed a" "errored a = None" "list_all (\<lambda>c. c < nextbuf a) cs"
  shows "\<exists>a' ks. adapter_run a (map Data cs) = Inr a' \<and>
           enqueued a' = enqueued a @ ks \<and>
           map (bufs a') ks = map (bufs a) cs \<and>
           (\<forall>k\<in>set ks. nextbuf a \<le> k \<and> k < nextbuf a') \<and> distinct ks \<and>
           nextbuf a \<le> nextbuf a' \<and>
           (\<forall>c<nextbuf a. bufs a' c = bufs a c) \<and>
           \<not> closed a' \<and> errored a' = None"
  using assms
proof (induction cs arbitrary: a)
  case Nil
  then show ?case by simp
next
  case (Cons c cs)
  let ?n = "nextbuf a"
  let ?nxt = "a\<lparr>bufs := (bufs a)(?n := bufs a c, Suc ?n := bufs a c),
               nextbuf := Suc (Suc ?n), enqueued := enqueued a @ [Suc ?n]\<rparr>"
  have step: "adapter_listener (Data c) a = Inr ?nxt"
    using Cons.prems(1,2) by (rule adapter_data_step)
  have c: "c < ?n" and cs: "list_all (\<lambda>c. c < ?n) cs"
    using Cons.prems by simp_all
  have "list_all (\<lambda>c. c < nextbuf ?nxt) cs"
    using cs by (auto simp: list_all_iff)
  with Cons.IH [of ?nxt] Cons.prems obtain a' ks where
    run: "adapter_run ?nxt (map Data cs) = Inr a'" and
    enq: "enqueued a' = enqueued ?nxt @ ks" and
    con: "map (bufs a') ks = map (bufs ?nxt) cs" and
    rng: "\<forall>k\<in>set ks. nextbuf ?nxt \<le> k \<and> k < nextbuf a'" and
    dis: "distinct ks" and
    le: "nextbuf ?nxt \<le> nextbuf a'" and
    frame: "\<forall>c<nextbuf ?nxt. bufs a' c = bufs ?nxt c" and
    flags: "\<not> closed a'" "errored a' = None"
    by auto
  have old: "map (bufs ?nxt) cs = map (bufs a) cs"
    using cs by (auto simp: list_all_iff)
  have new: "bufs a' (Suc ?n) = bufs a c"
    using frame by simp
  have r1: "adapter_run a (map Data (c # cs)) = Inr a'"
    using step run by simp
  have r2: "enqueued a' = enqueued a @ (Suc ?n # ks)"
    using enq by simp
  have r3: "map (bufs a') (Suc ?n # ks) = map (bufs a) (c # cs)"
    using con old new by simp
  have r4: "\<forall>k\<in>set (Suc ?n # ks). ?n \<le> k \<and> k < nextbuf a'"
    using rng le by auto
  have r5: "distinct (Suc ?n # ks)"
    using dis rng by auto
  have r6: "?n \<le> nextbuf a'"
    using le by simp
  have r7: "\<forall>c<?n. bufs a' c = bufs a c"
    using frame by simp
  from r1 r2 r3 r4 r5 r6 r7 flags show ?case by blast
qed

text \<open>
  Claim C6. The push stream emits the chunks \<open>cs\<close>, buffers of the heap, and then
  \<^verbatim>\<open>end\<close> or \<^verbatim>\<open>error\<close>. No listener throws. The buffers enqueued hold,
  in the same order, the bytes of \<open>cs\<close>; each was allocated by the adapter, none is a
  buffer that existed before and no two are the same; the buffers that existed before
  are unchanged. After \<^verbatim>\<open>end\<close> the controller is closed; after
  \<^verbatim>\<open>error\<close> with \<open>e\<close> it is errored with \<open>e\<close> and not closed.
\<close>

theorem requestToBodyStream_copies_chunks:
  assumes "list_all (\<lambda>c. c < n) cs"
  shows "\<exists>a b. adapter_run (requestToBodyStream h n) (map Data cs @ [End]) = Inr a \<and>
           adapter_run (requestToBodyStream h n) (map Data cs @ [Error e]) = Inr b \<and>
           map (bufs a) (enqueued a) = map h cs \<and> enqueued b = enqueued a \<and> bufs b = bufs a \<and>
           (\<forall>k\<in>set (enqueued a). n \<le> k) \<and> distinct (enqueued a) \<and>
           (\<forall>c<n. bufs a c = h c) \<and>
           closed a \<and> errored a = None \<and> \<not> closed b \<and> errored b = Some e"
proof -
  let ?init = "requestToBodyStream h n"
  have "\<not> closed ?init" "errored ?init = None" "list_all (\<lambda>c. c < nextbuf ?init) cs"
    using assms by (simp_all add: requestToBodyStream_def)
  from adapter_data_run [OF this] obtain a' ks where
    run: "adapter_run ?init (map Data cs) = Inr a'" and
    enq: "enqueued a' = enqueued ?init @ ks" and
    con: "map (bufs a') ks = map (bufs ?init) cs" and
    rng: "\<forall>k\<in>set ks. nextbuf ?init \<le> k \<and> k < nextbuf a'" and
    dis: "distinct ks" and
    frame: "\<forall>c<nextbuf ?init. bufs a' c = bufs ?init c" and
    flags: "\<not> closed a'" "errored a' = None"
    by blast
  let ?a = "a'\<lparr>closed := True\<rparr>" and ?b = "a'\<lparr>errored := Some e\<rparr>"
  have 1: "adapter_run ?init (map Data cs @ [End]) = Inr ?a"
    using run flags by (simp add: adapter_run_append controller_close_def)
  have 2: "adapter_run ?init (map Data cs @ [Error e]) = Inr ?b"
    using run flags by (simp add: adapter_run_append controller_error_def)
  have 3: "map (bufs ?a) (enqueued ?a) = map h cs"
    using enq con by (simp add: requestToBodyStream_def)
  have 4: "\<forall>k\<in>set (enqueued ?a). n \<le> k"
    using enq rng by (simp add: requestToBodyStream_def)
  have 5: "distinct (enqueued ?a)"
    using enq dis by (simp add: requestToBodyStream_def)
  have 6: "\<forall>c<n. bufs ?a c = h c"
    using frame by (simp add: requestToBodyStream_def)
  have 7: "closed ?a \<and> errored ?a = None \<and> \<not> closed ?b \<and> errored ?b = Some e"
    using flags by simp
  have 8: "enqueued ?b = enqueued ?a \<and> bufs ?b = bufs ?a" by simp
  from 1 2 3 4 5 6 7 8 show ?thesis by blast
qed

theorem requestToBodyStream_copies_chunks_witness:
  "\<exists>a b. adapter_run (requestToBodyStream ((\<lambda>_. [])(0 := [1, 2], 1 := [3])) 2)
             (map Data [0, 1] @ [End]) = Inr a \<and>
          adapter_run (requestToBodyStream ((\<lambda>_. [])(0 := [1, 2], 1 := [3])) 2)
             (map Data [0, 1] @ [Error (Ref 9)]) = Inr b \<and>
          map (bufs a) (enqueued a) = [[1, 2], [3]] \<and> enqueued b = enqueued a \<and>
          closed a \<and> errored b = Some (Ref 9)"
  using requestToBodyStream_copies_chunks [of 2 "[0, 1]" "(\<lambda>_. [])(0 := [1, 2], 1 := [3])" "Ref 9"]
  by auto

section \<open>Properties of the cloneable body\<close>

subsection \<open>\<^verbatim>\<open>replaceRequestBody\<close>\<close>

lemma replace_step_fields [simp]:
  "tables (replace_step base s k w) = tables w"
  "rstates (replace_step base s k w) = rstates w"
  "nxt (replace_step base s k w) = nxt w"
  "readable (replace_step base s k w) = readable w"
  "buffered (replace_step base s k w) = buffered w"
  "endPromise (replace_step base s k w) = endPromise w"
  by (simp_all add: replace_step_def set_prop_def Let_def)

lemma replace_step_objs_other:
  "x \<noteq> base \<Longrightarrow> objs (replace_step base s k w) x = objs w x"
  by (simp add: replace_step_def set_prop_def Let_def)

lemma replace_step_map_of:
  "map_of (objs (replace_step base s k w) base) =
     (map_of (objs w base))(k \<mapsto> rebind base (get_prop w s k))"
  by (simp add: replace_step_def set_prop_def Let_def rebind_def update_conv')

lemma replace_step_get_prop:
  "k' \<noteq> k \<Longrightarrow> get_prop (replace_step base s k w) x k' = get_prop w x k'"
  by (cases "x = base")
     (simp_all add: get_prop_def replace_step_map_of replace_step_objs_other)

lemma replace_step_keys:
  "map fst (objs (replace_step base s k w) base) =
     (if k \<in> fst ` set (objs w base) then map fst (objs w base)
      else map fst (objs w base) @ [k])"
  by (simp add: replace_step_def set_prop_def Let_def update_keys)

lemma fold_replace_fields [simp]:
  "tables (fold (replace_step base s) ks w) = tables w"
  "rstates (fold (replace_step base s) ks w) = rstates w"
  "nxt (fold (replace_step base s) ks w) = nxt w"
  "readable (fold (replace_step base s) ks w) = readable w"
  "buffered (fold (replace_step base s) ks w) = buffered w"
  "endPromise (fold (replace_step base s) ks w) = endPromise w"
  by (induction ks arbitrary: w; simp)+

lemma fold_replace_objs_other:
  "x \<noteq> base \<Longrightarrow> objs (fold (replace_step base s) ks w) x = objs w x"
  by (induction ks arbitrary: w) (simp_all add: replace_step_objs_other)

lemma fold_replace_get_prop_other:
  "k \<notin> set ks \<Longrightarrow> get_prop (fold (replace_step base s) ks w) x k = get_prop w x k"
  by (induction ks arbitrary: w) (auto simp: replace_step_get_prop)

lemma fold_replace_map_of:
  "distinct ks \<Longrightarrow>
   map_of (objs (fold (replace_step base s) ks w) base) k =
     (if k \<in> set ks then Some (rebind base (get_prop w s k)) else map_of (objs w base) k)"
proof (induction ks arbitrary: w)
  case Nil
  then show ?case by simp
next
  case (Cons k' ks)
  let ?w1 = "replace_step base s k' w"
  have d: "distinct ks" and n: "k' \<notin> set ks" using Cons.prems by simp_all
  have ih: "map_of (objs (fold (replace_step base s) ks ?w1) base) k =
     (if k \<in> set ks then Some (rebind base (get_prop ?w1 s k)) else map_of (objs ?w1 base) k)"
    by (rule Cons.IH [OF d])
  show ?case
  proof (cases "k \<in> set ks")
    case True
    with n have "k \<noteq> k'" by auto
    then have "get_prop ?w1 s k = get_prop w s k" by (simp add: replace_step_get_prop)
    with ih True show ?thesis by simp
  next
    case False
    with ih show ?thesis by (simp add: replace_step_map_of)
  qed
qed

lemma fold_replace_keys_subset:
  "set ks \<subseteq> fst ` set (objs w base) \<Longrightarrow>
   map fst (objs (fold (replace_step base s) ks w) base) = map fst (objs w base)"
proof (induction ks arbitrary: w)
  case Nil
  then show ?case by simp
next
  case (Cons k ks)
  let ?w1 = "replace_step base s k w"
  have k: "map fst (objs ?w1 base) = map fst (objs w base)"
    using Cons.prems by (simp add: replace_step_keys)
  then have "fst ` set (objs ?w1 base) = fst ` set (objs w base)"
    by (metis set_map)
  with Cons.prems have "set ks \<subseteq> fst ` set (objs ?w1 base)" by simp
  from Cons.IH [OF this] k show ?case by simp
qed

lemma fold_replace_distinct:
  "distinct (map fst (objs w base)) \<Longrightarrow>
   distinct (map fst (objs (fold (replace_step base s) ks w) base))"
proof (induction ks arbitrary: w)
  case Nil
  then show ?case by simp
next
  case (Cons k ks)
  have "distinct (map fst (objs (replace_step base s k w) base))"
    using Cons.prems by (simp add: replace_step_def set_prop_def Let_def distinct_update)
  from Cons.IH [OF this] show ?case by simp
qed

lemma replaceRequestBody_fields [simp]:
  "tables (replaceRequestBody base s w) = tables w"
  "rstates (replaceRequestBody base s w) = rstates w"
  "nxt (replaceRequestBody base s w) = nxt w"
  "readable (replaceRequestBody base s w) = readable w"
  "buffered (replaceRequestBody base s w) = buffered w"
  "endPromise (replaceRequestBody base s w) = endPromise w"
  by (simp_all add: replaceRequestBody_def)

lemma replaceRequestBody_objs_other:
  "x \<noteq> base \<Longrightarrow> objs (replaceRequestBody base s w) x = objs w x"
  by (simp add: replaceRequestBody_def fold_replace_objs_other)

lemma replaceRequestBody_map_of:
  assumes "distinct (map fst (objs w s))"
  shows "map_of (objs (replaceRequestBody base s w) base) k =
     (case map_of (objs w s) k of
        Some v \<Rightarrow> Some (rebind base v)
      | None \<Rightarrow> map_of (objs w base) k)"
proof (cases "map_of (objs w s) k")
  case None
  then have "k \<notin> set (map fst (objs w s))"
    by (simp add: map_of_eq_None_iff)
  with None show ?thesis
    unfolding replaceRequestBody_def by (simp add: fold_replace_map_of [OF assms])
next
  case (Some v)
  then have "k \<in> set (map fst (objs w s))"
    by (metis domI dom_map_of_conv_image_fst set_map)
  with Some show ?thesis
    unfolding replaceRequestBody_def
    by (simp add: fold_replace_map_of [OF assms] get_prop_def)
qed

lemma replaceRequestBody_distinct:
  "distinct (map fst (objs w base)) \<Longrightarrow>
   distinct (map fst (objs (replaceRequestBody base s w) base))"
  by (simp add: replaceRequestBody_def fold_replace_distinct)

lemma replaceRequestBody_self_keys:
  "map fst (objs (replaceRequestBody a a w) a) = map fst (objs w a)"
  unfolding replaceRequestBody_def by (rule fold_replace_keys_subset) simp

lemma replaceRequestBody_get_prop:
  assumes "distinct (map fst (objs w s))"
  shows "get_prop (replaceRequestBody base s w) base k =
     (case map_of (objs w s) k of Some v \<Rightarrow> rebind base v | None \<Rightarrow> get_prop w base k)"
  by (simp add: get_prop_def replaceRequestBody_map_of [OF assms] split: option.splits)

lemma this_of_rebind: "this_of a (rebind a v) = this_of a v"
  by (simp add: rebind_def)

lemma is_function_rebind [simp]: "is_function (rebind a v) = is_function v"
  by (simp add: rebind_def)

lemma same_value_rebind: "same_value a v (rebind a v)"
  by (simp add: same_value_def rebind_def)

subsection \<open>States with the same objects and listeners\<close>

lemma same_heap_refl [simp]: "same_heap w w"
  by (simp add: same_heap_def)

lemma same_heap_trans: "same_heap w w1 \<Longrightarrow> same_heap w1 w2 \<Longrightarrow> same_heap w w2"
  by (simp add: same_heap_def)

lemma same_heap_lookups:
  assumes "same_heap w w'"
  shows "get_prop w' = get_prop w" "method_this w' = method_this w"
    "events_of w' = events_of w" "rstate_of w' = rstate_of w"
    "branch w' = branch w" "listener_ok w' = listener_ok w" "emitter w' = emitter w"
    "listening w' = listening w"
proof -
  show g: "get_prop w' = get_prop w"
    using assms by (intro ext) (simp add: get_prop_def same_heap_def)
  show m: "method_this w' = method_this w"
    by (intro ext) (simp add: method_this_def g)
  show e: "events_of w' = events_of w"
    by (intro ext) (simp add: events_of_def g)
  show "rstate_of w' = rstate_of w"
    by (intro ext) (simp add: rstate_of_def g)
  show b: "branch w' = branch w"
    using assms by (intro ext) (simp add: branch_def same_heap_def)
  show "listener_ok w' = listener_ok w"
    by (intro ext) (simp add: listener_ok_def b)
  show "emitter w' = emitter w"
    using assms by (intro ext) (auto simp: emitter_def m e same_heap_def split: option.splits)
  show "listening w' = listening w"
    using assms by (auto simp: listening_def e same_heap_def split: option.splits)
qed

lemma wf_same_heap:
  assumes "well_formed w" "same_heap w w'" "endPromise w' = Waiting \<Longrightarrow> endPromise w = Waiting"
  shows "well_formed w'"
proof -
  have eq: "objs w' = objs w" "tables w' = tables w" "nxt w' = nxt w"
    "readable w' = readable w" "buffered w' = buffered w"
    using assms(2) by (simp_all add: same_heap_def)
  show ?thesis
    using assms(1,3) unfolding well_formed_def same_heap_lookups [OF assms(2)] eq
    by (auto split: if_splits)
qed

lemma lookups_same_object:
  assumes "objs w' a = objs w a"
  shows "get_prop w' a = get_prop w a" "method_this w' a = method_this w a"
    "events_of w' a = events_of w a" "rstate_of w' a = rstate_of w a"
proof -
  show g: "get_prop w' a = get_prop w a"
    using assms by (intro ext) (simp add: get_prop_def)
  show "method_this w' a = method_this w a"
    by (intro ext) (simp add: method_this_def g)
  show "events_of w' a = events_of w a" by (simp add: events_of_def g)
  show "rstate_of w' a = rstate_of w a" by (simp add: rstate_of_def g)
qed

lemma same_heap_push_to [simp]: "same_heap w (push_to x a w)"
  by (simp add: same_heap_def push_to_def)

lemma same_heap_settle [simp]: "same_heap w (settle s w)"
  by (simp add: same_heap_def settle_def)

lemma same_heap_listener_effect [simp]: "same_heap w (listener_effect ev l w)"
  by (cases "(ev, l, w)" rule: listener_effect.cases)
     (auto intro: same_heap_trans same_heap_push_to)

lemma same_heap_fold_effect [simp]: "same_heap w (fold (listener_effect ev) ls w)"
proof (induction ls arbitrary: w)
  case Nil
  then show ?case by simp
next
  case (Cons l ls)
  show ?case
    using same_heap_trans [OF same_heap_listener_effect Cons.IH] by simp
qed

lemma same_heap_emit_effect [simp]: "same_heap w (emit_effect a ev w)"
  by (simp add: emit_effect_def split: option.splits)

lemma same_heap_emits_effect [simp]: "same_heap w (emits_effect a evs w)"
  unfolding emits_effect_def
proof (induction evs arbitrary: w)
  case Nil
  then show ?case by simp
next
  case (Cons ev evs)
  show ?case
    using same_heap_trans [OF same_heap_emit_effect Cons.IH] by simp
qed

subsection \<open>Emitting an event\<close>

lemma passthrough_distinct [simp]: "distinct (map fst (passthrough_props e r))"
  by (simp add: passthrough_props_def)

lemma branch_lookups:
  assumes "branch w a"
  shows "method_this w a ''push'' = Some a" "rstate_of w a = Some (a + 2)"
    "method_this w a ''on'' = Some a" "events_of w a = Some (a + 1)"
  using assms
  by (simp_all add: branch_def method_this_def rstate_of_def events_of_def get_prop_def
        passthrough_props_def)

lemma js_push_branch: "branch w a \<Longrightarrow> js_push a x w = Inr (push_to x a w)"
  by (simp add: js_push_def branch_lookups push_to_def)

lemma run_listener_ok:
  assumes "listener_ok w l"
  shows "run_listener l ev w = Inr (listener_effect ev l w)"
proof (cases "(l, ev, w)" rule: run_listener.cases)
  case (3 p1 p2 c w0)
  then have b: "branch w p1" "branch w p2" using assms by (simp_all add: listener_ok_def)
  have "branch (push_to (Some c) p1 w) p2"
    using b(2) by (simp add: same_heap_lookups [OF same_heap_push_to])
  with 3 b show ?thesis by (simp add: js_push_branch)
next
  case (4 p1 p2 ev0 w0)
  then have b: "branch w p1" "branch w p2" using assms by (simp_all add: listener_ok_def)
  have "branch (push_to None p1 w) p2"
    using b(2) by (simp add: same_heap_lookups [OF same_heap_push_to])
  with 4 b show ?thesis by (simp add: js_push_branch)
qed auto

lemma run_listeners_ok:
  "list_all (listener_ok w) ls \<Longrightarrow>
   run_listeners ls ev w = Inr (fold (listener_effect ev) ls w)"
proof (induction ls arbitrary: w)
  case Nil
  then show ?case by simp
next
  case (Cons l ls)
  have 1: "run_listener l ev w = Inr (listener_effect ev l w)"
    using Cons.prems by (simp add: run_listener_ok)
  have "list_all (listener_ok (listener_effect ev l w)) ls"
    using Cons.prems by (simp add: same_heap_lookups [OF same_heap_listener_effect])
  from Cons.IH [OF this] 1 show ?case by simp
qed

lemma emit_ok:
  assumes "\<And>e. events_of w a = Some e \<Longrightarrow> list_all (listener_ok w) (tables w e)"
  shows "emit a ev w = Inr (emit_effect a ev w)"
proof (cases "events_of w a")
  case None
  then show ?thesis by (simp add: emit_def emit_effect_def)
next
  case (Some e)
  have "list_all (listener_ok w) (filter (\<lambda>l. listens_to l = kind_of ev) (tables w e))"
    using assms [OF Some] by (simp add: list_all_iff)
  with Some show ?thesis by (simp add: emit_def emit_effect_def run_listeners_ok)
qed

lemma settle_not_back: "endPromise (settle s w) = Waiting \<Longrightarrow> endPromise w = Waiting"
  by (simp add: settle_def split: if_splits)

lemma listener_effect_not_back:
  "endPromise (listener_effect ev l w) = Waiting \<Longrightarrow> endPromise w = Waiting"
  by (cases "(ev, l, w)" rule: listener_effect.cases)
     (auto simp: push_to_def dest: settle_not_back)

lemma fold_effect_not_back:
  "endPromise (fold (listener_effect ev) ls w) = Waiting \<Longrightarrow> endPromise w = Waiting"
  by (induction ls arbitrary: w) (auto dest: listener_effect_not_back)

lemma emit_effect_not_back:
  "endPromise (emit_effect a ev w) = Waiting \<Longrightarrow> endPromise w = Waiting"
  by (auto simp: emit_effect_def split: option.splits dest: fold_effect_not_back)

lemma wf_emit:
  assumes "well_formed w"
  shows "emit a ev w = Inr (emit_effect a ev w)" "well_formed (emit_effect a ev w)"
proof -
  show "emit a ev w = Inr (emit_effect a ev w)"
    using assms by (intro emit_ok) (simp add: well_formed_def)
  show "well_formed (emit_effect a ev w)"
    using assms same_heap_emit_effect emit_effect_not_back by (rule wf_same_heap)
qed

lemma wf_emits:
  "well_formed w \<Longrightarrow> emits a evs w = Inr (emits_effect a evs w) \<and> well_formed (emits_effect a evs w)"
  unfolding emits_effect_def
proof (induction evs arbitrary: w)
  case Nil
  then show ?case by simp
next
  case (Cons ev evs)
  from Cons.IH [OF wf_emit(2) [OF Cons.prems, of a ev]] wf_emit(1) [OF Cons.prems, of a ev]
  show ?case by simp
qed

lemma emit_effect_cong:
  "events_of w a = events_of w a' \<Longrightarrow> emit_effect a ev w = emit_effect a' ev w"
  by (simp add: emit_effect_def)

lemma emits_effect_cong:
  "events_of w a = events_of w a' \<Longrightarrow> emits_effect a evs w = emits_effect a' evs w"
  unfolding emits_effect_def
proof (induction evs arbitrary: w)
  case Nil
  then show ?case by simp
next
  case (Cons ev evs)
  have e: "emit_effect a ev w = emit_effect a' ev w"
    by (rule emit_effect_cong [OF Cons.prems])
  have sh: "same_heap w (emit_effect a' ev w)" by simp
  have "events_of (emit_effect a' ev w) a = events_of (emit_effect a' ev w) a'"
    using Cons.prems by (simp add: same_heap_lookups [OF sh])
  from Cons.IH [OF this] e show ?case by simp
qed

lemma settle_settled: "endPromise w \<noteq> Waiting \<Longrightarrow> endPromise (settle s w) = endPromise w"
  by (simp add: settle_def)

lemma listener_effect_settled:
  "endPromise w \<noteq> Waiting \<Longrightarrow> endPromise (listener_effect ev l w) = endPromise w"
  by (cases "(ev, l, w)" rule: listener_effect.cases) (simp_all add: settle_def push_to_def)

lemma fold_effect_settled:
  "endPromise w \<noteq> Waiting \<Longrightarrow> endPromise (fold (listener_effect ev) ls w) = endPromise w"
  by (induction ls arbitrary: w) (simp_all add: listener_effect_settled)

lemma emit_effect_settled:
  "endPromise w \<noteq> Waiting \<Longrightarrow> endPromise (emit_effect a ev w) = endPromise w"
  by (simp add: emit_effect_def fold_effect_settled split: option.splits)

lemma emits_effect_settled:
  "endPromise w \<noteq> Waiting \<Longrightarrow> endPromise (emits_effect a evs w) = endPromise w"
  unfolding emits_effect_def
  by (induction evs arbitrary: w) (simp_all add: emit_effect_settled)

lemma fold_effect_error:
  assumes "ErrorReject \<in> set ls" "endPromise w = Waiting"
    "list_all (\<lambda>l. listens_to l = KError) ls"
  shows "endPromise (fold (listener_effect (Error e)) ls w) = ErrorSeen e"
  using assms
proof (induction ls arbitrary: w)
  case Nil
  then show ?case by simp
next
  case (Cons l ls)
  from Cons.prems(3) have l: "l = ErrorReject" by (cases l) simp_all
  have "endPromise (listener_effect (Error e) l w) = ErrorSeen e"
    using l Cons.prems(2) by (simp add: settle_def)
  then show ?case
    using fold_effect_settled [of "listener_effect (Error e) l w" "Error e" ls] by simp
qed

lemma emit_effect_error:
  assumes "listening w" "endPromise w = Waiting"
  shows "endPromise (emit_effect (readable w) (Error e) w) = ErrorSeen e"
proof -
  from assms(1) obtain er where
    er: "events_of w (readable w) = Some er" "ErrorReject \<in> set (tables w er)"
    by (auto simp: listening_def split: option.splits)
  let ?ls = "filter (\<lambda>l. listens_to l = kind_of (Error e :: chunk event)) (tables w er)"
  have "ErrorReject \<in> set ?ls" using er(2) by simp
  moreover have "list_all (\<lambda>l. listens_to l = KError) ?ls" by (simp add: list_all_iff)
  ultimately show ?thesis
    using er(1) assms(2) by (simp add: emit_effect_def fold_effect_error)
qed

subsection \<open>What a teed branch receives\<close>

lemma push_to_rstates:
  "rstates (push_to x a w) r = (if r = a + 2 then readable_push x (rstates w r) else rstates w r)"
  by (simp add: push_to_def)

lemma settle_rstates [simp]: "rstates (settle s w) = rstates w"
  by (simp add: settle_def)

lemma listener_effect_untouched:
  "list_all (\<lambda>t. t + 2 \<noteq> r) (targets l) \<Longrightarrow> rstates (listener_effect ev l w) r = rstates w r"
  by (cases "(ev, l, w)" rule: listener_effect.cases) (auto simp: push_to_rstates)

lemma fold_effect_untouched:
  "list_all (\<lambda>l. list_all (\<lambda>t. t + 2 \<noteq> r) (targets l)) ls \<Longrightarrow>
   rstates (fold (listener_effect ev) ls w) r = rstates w r"
  by (induction ls arbitrary: w) (simp_all add: listener_effect_untouched)

lemma tee_effect:
  "p1 \<noteq> p2 \<Longrightarrow>
   rstates (fold (listener_effect ev)
      (filter (\<lambda>l. listens_to l = kind_of ev) [DataTee p1 p2, EndTee p1 p2]) w) (p1 + 2) =
     branch_sees ev (rstates w (p1 + 2)) \<and>
   rstates (fold (listener_effect ev)
      (filter (\<lambda>l. listens_to l = kind_of ev) [DataTee p1 p2, EndTee p1 p2]) w) (p2 + 2) =
     branch_sees ev (rstates w (p2 + 2))"
  by (cases ev) (simp_all add: push_to_rstates)

lemma teed_emit_effect:
  assumes "teed w e p1 p2" "events_of w a = Some e"
  shows "rstates (emit_effect a ev w) (p1 + 2) = branch_sees ev (rstates w (p1 + 2))"
    and "rstates (emit_effect a ev w) (p2 + 2) = branch_sees ev (rstates w (p2 + 2))"
    and "teed (emit_effect a ev w) e p1 p2"
    and "events_of (emit_effect a ev w) a = Some e"
proof -
  from assms(1) obtain old where
    ne: "p1 \<noteq> p2" and
    t: "tables w e = old @ [DataTee p1 p2, EndTee p1 p2]" and
    o: "list_all (\<lambda>l. p1 \<notin> set (targets l) \<and> p2 \<notin> set (targets l)) old"
    by (auto simp: teed_def)
  let ?f = "filter (\<lambda>l. listens_to l = kind_of ev)"
  let ?w1 = "fold (listener_effect ev) (?f old) w"
  have e: "emit_effect a ev w = fold (listener_effect ev) (?f [DataTee p1 p2, EndTee p1 p2]) ?w1"
    using assms(2) t by (simp add: emit_effect_def)
  have u1: "list_all (\<lambda>l. list_all (\<lambda>t. t + 2 \<noteq> p1 + 2) (targets l)) (?f old)"
    using o by (auto simp: list_all_iff)
  have u2: "list_all (\<lambda>l. list_all (\<lambda>t. t + 2 \<noteq> p2 + 2) (targets l)) (?f old)"
    using o by (auto simp: list_all_iff)
  show "rstates (emit_effect a ev w) (p1 + 2) = branch_sees ev (rstates w (p1 + 2))"
    unfolding e using tee_effect [OF ne, of ev ?w1] fold_effect_untouched [OF u1, of ev w]
    by simp
  show "rstates (emit_effect a ev w) (p2 + 2) = branch_sees ev (rstates w (p2 + 2))"
    unfolding e using tee_effect [OF ne, of ev ?w1] fold_effect_untouched [OF u2, of ev w]
    by simp
  have sh: "same_heap w (emit_effect a ev w)" by simp
  then have "tables (emit_effect a ev w) = tables w" by (simp add: same_heap_def)
  with assms(1) show "teed (emit_effect a ev w) e p1 p2"
    by (simp add: teed_def same_heap_lookups [OF sh])
  show "events_of (emit_effect a ev w) a = Some e"
    using assms(2) by (simp add: same_heap_lookups [OF sh])
qed

lemma teed_emits_effect:
  assumes "teed w e p1 p2" "events_of w a = Some e"
  shows "rstates (emits_effect a evs w) (p1 + 2) = fold branch_sees evs (rstates w (p1 + 2)) \<and>
         rstates (emits_effect a evs w) (p2 + 2) = fold branch_sees evs (rstates w (p2 + 2))"
  using assms unfolding emits_effect_def
proof (induction evs arbitrary: w)
  case Nil
  then show ?case by simp
next
  case (Cons ev evs)
  note s = teed_emit_effect [OF Cons.prems, of ev]
  from Cons.IH [OF s(3,4)] s(1,2) show ?case by simp
qed

lemma fold_branch_sees_data:
  "\<not> ended s \<Longrightarrow> fold branch_sees (map Data cs) s = s\<lparr>pushed := pushed s @ cs\<rparr>"
  by (induction cs arbitrary: s) simp_all

lemma fold_branch_sees_open:
  "End \<notin> set evs \<Longrightarrow> \<not> ended s \<Longrightarrow>
   \<not> ended (fold branch_sees evs s) \<and> failed (fold branch_sees evs s) = failed s"
proof (induction evs arbitrary: s)
  case Nil
  then show ?case by simp
next
  case (Cons ev evs)
  have "\<not> ended (branch_sees ev s) \<and> failed (branch_sees ev s) = failed s"
    using Cons.prems by (cases ev) simp_all
  with Cons.IH [of "branch_sees ev s"] Cons.prems show ?case by simp
qed

subsection \<open>\<^verbatim>\<open>cloneBodyStream\<close> in a well-formed state\<close>

lemma wf_input:
  assumes "well_formed w"
  shows "input_of w < nxt w" "method_this w (input_of w) ''on'' = Some (input_of w)"
    "\<exists>e<nxt w. events_of w (input_of w) = Some e"
proof -
  have r: "readable w < nxt w" "emitter w (readable w)"
    using assms by (simp_all add: well_formed_def)
  have b: "buffered w = Some b \<Longrightarrow> b = readable w \<or> branch w b" for b
    using assms by (simp add: well_formed_def)
  show "input_of w < nxt w"
    using r b by (auto simp: input_of_def branch_def split: option.splits)
  show "method_this w (input_of w) ''on'' = Some (input_of w)"
    using r b by (auto simp: input_of_def emitter_def branch_lookups split: option.splits)
  show "\<exists>e<nxt w. events_of w (input_of w) = Some e"
  proof (cases "input_of w = readable w")
    case True
    with r show ?thesis by (auto simp: emitter_def split: option.splits)
  next
    case False
    then have "branch w (input_of w)"
      using b by (auto simp: input_of_def split: option.splits)
    then show ?thesis by (auto simp: branch_lookups branch_def)
  qed
qed

lemma new_PassThrough_eq: "new_PassThrough w = (nxt w, alloc_effect w)"
  by (simp add: alloc_effect_def new_PassThrough_def Let_def)

lemma js_on_eq:
  "method_this w a ''on'' = Some t \<Longrightarrow> events_of w t = Some e \<Longrightarrow>
   js_on a l w = Inr (attach e l w)"
  by (simp add: js_on_def attach_def)

lemma alloc_effect_fields:
  "objs (alloc_effect w) a =
     (if a = nxt w then passthrough_props (nxt w + 1) (nxt w + 2) else objs w a)"
  "tables (alloc_effect w) e = (if e = nxt w + 1 then [] else tables w e)"
  "rstates (alloc_effect w) r = (if r = nxt w + 2 then empty_rstate else rstates w r)"
  "nxt (alloc_effect w) = nxt w + 3"
  "readable (alloc_effect w) = readable w"
  "buffered (alloc_effect w) = buffered w"
  "endPromise (alloc_effect w) = endPromise w"
  by (simp_all add: alloc_effect_def new_PassThrough_def Let_def empty_rstate_def)

lemma attach_fields:
  "objs (attach e l w) = objs w"
  "tables (attach e l w) e' = (if e' = e then tables w e @ [l] else tables w e')"
  "rstates (attach e l w) = rstates w"
  "nxt (attach e l w) = nxt w"
  "readable (attach e l w) = readable w"
  "buffered (attach e l w) = buffered w"
  "endPromise (attach e l w) = endPromise w"
  by (simp_all add: attach_def)

lemma clone_effect_fields:
  "objs (clone_effect e w) a =
     (if a = nxt w then passthrough_props (nxt w + 1) (nxt w + 2)
      else if a = nxt w + 3 then passthrough_props (nxt w + 4) (nxt w + 5)
      else objs w a)"
  "tables (clone_effect e w) e' =
     (if e' = e then
        (if e = nxt w + 1 \<or> e = nxt w + 4 then [] else tables w e) @
          [DataTee (nxt w) (nxt w + 3), EndTee (nxt w) (nxt w + 3)]
      else if e' = nxt w + 1 \<or> e' = nxt w + 4 then [] else tables w e')"
  "rstates (clone_effect e w) r =
     (if r = nxt w + 2 \<or> r = nxt w + 5 then empty_rstate else rstates w r)"
  "nxt (clone_effect e w) = nxt w + 6"
  "readable (clone_effect e w) = readable w"
  "buffered (clone_effect e w) = Some (nxt w + 3)"
  "endPromise (clone_effect e w) = endPromise w"
  by (auto simp: clone_effect_def Let_def attach_fields alloc_effect_fields add.commute)

lemma clone_eq:
  assumes "well_formed w" "events_of w (input_of w) = Some e"
  shows "cloneBodyStream w = Inr (nxt w, clone_effect e w)"
proof -
  let ?n = "nxt w" and ?i = "input_of w"
  let ?w2 = "alloc_effect (alloc_effect w)"
  have i: "?i < ?n" and m: "method_this w ?i ''on'' = Some ?i"
    using wf_input [OF assms(1)] by simp_all
  have g2: "objs ?w2 ?i = objs w ?i"
    using i by (simp add: alloc_effect_fields)
  let ?w3 = "attach e (DataTee ?n (?n + 3)) ?w2"
  have g3: "objs ?w3 ?i = objs w ?i"
    using g2 by (simp add: attach_fields)
  have on1: "js_on ?i (DataTee ?n (?n + 3)) ?w2 = Inr ?w3"
    using m assms(2) by (intro js_on_eq [where t = ?i]) (simp_all add: lookups_same_object [OF g2])
  have on2: "js_on ?i (EndTee ?n (?n + 3)) ?w3 = Inr (attach e (EndTee ?n (?n + 3)) ?w3)"
    using m assms(2) by (intro js_on_eq [where t = ?i]) (simp_all add: lookups_same_object [OF g3])
  have n2: "nxt (alloc_effect w) = ?n + 3" by (simp add: alloc_effect_fields)
  show ?thesis
    unfolding cloneBodyStream_def Let_def new_PassThrough_eq prod.case n2
    by (simp add: on1 on2 clone_effect_def Let_def)
qed

lemma branch_clone_old: "branch w t \<Longrightarrow> branch (clone_effect e w) t"
  by (simp add: branch_def clone_effect_fields)

lemma branch_clone_new:
  assumes "readable w < nxt w"
  shows "branch (clone_effect e w) (nxt w)" "branch (clone_effect e w) (nxt w + 3)"
  using assms by (simp_all add: branch_def clone_effect_fields add.commute)

lemma listener_ok_clone_old: "listener_ok w l \<Longrightarrow> listener_ok (clone_effect e w) l"
  by (simp add: listener_ok_def list_all_iff branch_clone_old)

lemma wf_clone_effect:
  assumes "well_formed w" "events_of w (input_of w) = Some e"
  shows "well_formed (clone_effect e w)"
proof -
  let ?w' = "clone_effect e w"
  have r: "readable w < nxt w" and ok: "\<And>e'. list_all (listener_ok w) (tables w e')"
    and d: "distinct (map fst (objs w (readable w)))" and em: "emitter w (readable w)"
    and li: "endPromise w = Waiting \<Longrightarrow> listening w"
    using assms(1) by (simp_all add: well_formed_def)
  from wf_input(3) [OF assms(1)] assms(2) have e: "e < nxt w" by auto
  have o: "objs ?w' (readable w) = objs w (readable w)"
    using r by (simp add: clone_effect_fields)
  have new: "listener_ok ?w' (DataTee (nxt w) (nxt w + 3))" "listener_ok ?w' (EndTee (nxt w) (nxt w + 3))"
    using branch_clone_new [OF r] by (simp_all add: listener_ok_def)
  have 1: "readable ?w' < nxt ?w'"
    using r by (simp add: clone_effect_fields)
  have 2: "list_all (listener_ok ?w') (tables ?w' e')" for e'
    using ok [of e'] ok [of e] new e
    by (auto simp: clone_effect_fields list_all_iff listener_ok_clone_old)
  have 3: "distinct (map fst (objs ?w' (readable ?w')))"
    using d o by (simp add: clone_effect_fields)
  have 4: "emitter ?w' (readable ?w')"
    using em by (auto simp: emitter_def lookups_same_object [OF o] clone_effect_fields
        split: option.splits)
  have 5: "branch ?w' (nxt w + 3)"
    by (rule branch_clone_new(2) [OF r])
  have 6: "listening ?w'" if "endPromise w = Waiting"
  proof -
    from li [OF that] obtain er where
      er: "events_of w (readable w) = Some er" "EndResolve \<in> set (tables w er)"
        "ErrorReject \<in> set (tables w er)"
      by (auto simp: listening_def split: option.splits)
    from em er(1) have "er < nxt w" by (simp add: emitter_def)
    with er show ?thesis
      by (auto simp: listening_def lookups_same_object [OF o] clone_effect_fields)
  qed
  show ?thesis
    unfolding well_formed_def using 1 2 3 4 5 6 by (simp add: clone_effect_fields)
qed

lemma listener_ok_targets_below:
  "listener_ok w l \<Longrightarrow> list_all (\<lambda>t. t + 2 < nxt w) (targets l)"
  by (simp add: listener_ok_def list_all_iff branch_def)

lemma teed_clone_effect:
  assumes "well_formed w" "events_of w (input_of w) = Some e"
  shows "teed (clone_effect e w) e (nxt w) (nxt w + 3)"
proof -
  let ?w' = "clone_effect e w"
  from wf_input(3) [OF assms(1)] assms(2) have e: "e < nxt w" by auto
  have ok: "list_all (listener_ok w) (tables w e)"
    using assms(1) by (simp add: well_formed_def)
  have "well_formed ?w'" by (rule wf_clone_effect [OF assms])
  then have 1: "list_all (listener_ok ?w') (tables ?w' e)" by (simp add: well_formed_def)
  have 2: "tables ?w' e = tables w e @ [DataTee (nxt w) (nxt w + 3), EndTee (nxt w) (nxt w + 3)]"
    using e by (simp add: clone_effect_fields)
  have 3: "list_all (\<lambda>l. nxt w \<notin> set (targets l) \<and> nxt w + 3 \<notin> set (targets l)) (tables w e)"
    unfolding list_all_iff
  proof
    fix l assume "l \<in> set (tables w e)"
    with ok have "listener_ok w l" by (simp add: list_all_iff)
    from listener_ok_targets_below [OF this]
    show "nxt w \<notin> set (targets l) \<and> nxt w + 3 \<notin> set (targets l)"
      by (auto simp: list_all_iff)
  qed
  show ?thesis unfolding teed_def using 1 2 3 by auto
qed

lemma clone_facts:
  assumes "well_formed w" "events_of w (input_of w) = Some e"
  shows "cloneBodyStream w = Inr (nxt w, clone_effect e w)"
    and "buffered (clone_effect e w) = Some (nxt w + 3)"
    and "well_formed (clone_effect e w)"
    and "events_of (clone_effect e w) (input_of w) = Some e"
    and "a < nxt w \<Longrightarrow> objs (clone_effect e w) a = objs w a"
    and "branch_state (clone_effect e w) (nxt w) = empty_rstate"
    and "branch_state (clone_effect e w) (nxt w + 3) = empty_rstate"
    and "teed (clone_effect e w) e (nxt w) (nxt w + 3)"
    and "branch (clone_effect e w) (nxt w)"
    and "branch (clone_effect e w) (nxt w + 3)"
proof -
  let ?w1 = "clone_effect e w"
  have i: "input_of w < nxt w" by (rule wf_input(1) [OF assms(1)])
  have r: "readable w < nxt w" using assms(1) by (simp add: well_formed_def)
  show "cloneBodyStream w = Inr (nxt w, ?w1)"
    by (rule clone_eq [OF assms(1,2)])
  show "well_formed ?w1" by (rule wf_clone_effect [OF assms(1,2)])
  have oi: "objs ?w1 (input_of w) = objs w (input_of w)"
    using i by (simp add: clone_effect_fields)
  show "events_of ?w1 (input_of w) = Some e"
    using assms(2) by (simp add: lookups_same_object [OF oi])
  show "teed ?w1 e (nxt w) (nxt w + 3)"
    by (rule teed_clone_effect [OF assms(1,2)])
  show b: "branch ?w1 (nxt w)" "branch ?w1 (nxt w + 3)"
    using branch_clone_new [OF r] by simp_all
  show "buffered ?w1 = Some (nxt w + 3)"
    by (simp add: clone_effect_fields)
  show "a < nxt w \<Longrightarrow> objs ?w1 a = objs w a"
    by (simp add: clone_effect_fields)
  show "branch_state ?w1 (nxt w) = empty_rstate"
    by (simp add: branch_state_def branch_lookups [OF b(1)]) (simp add: clone_effect_fields)
  show "branch_state ?w1 (nxt w + 3) = empty_rstate"
    by (simp add: branch_state_def branch_lookups [OF b(2)]) (simp add: clone_effect_fields)
qed

lemma clone_emits_facts:
  assumes "well_formed w" "events_of w (input_of w) = Some e"
  shows "emits (input_of w) evs (clone_effect e w) =
           Inr (emits_effect (input_of w) evs (clone_effect e w))"
    and "well_formed (emits_effect (input_of w) evs (clone_effect e w))"
    and "branch_state (emits_effect (input_of w) evs (clone_effect e w)) (nxt w) =
           fold branch_sees evs empty_rstate"
    and "branch_state (emits_effect (input_of w) evs (clone_effect e w)) (nxt w + 3) =
           fold branch_sees evs empty_rstate"
proof -
  let ?w1 = "clone_effect e w"
  let ?w2 = "emits_effect (input_of w) evs ?w1"
  note c = clone_facts [OF assms]
  have sh: "same_heap ?w1 ?w2" by simp
  have b2: "branch ?w2 (nxt w)" "branch ?w2 (nxt w + 3)"
    using c(9,10) by (simp_all add: same_heap_lookups [OF sh])
  show "emits (input_of w) evs ?w1 = Inr ?w2" "well_formed ?w2"
    using wf_emits [OF c(3), of "input_of w" evs] by simp_all
  have s: "rstates ?w1 (nxt w + 2) = empty_rstate" "rstates ?w1 (nxt w + 3 + 2) = empty_rstate"
    by (simp_all add: clone_effect_fields)
  show "branch_state ?w2 (nxt w) = fold branch_sees evs empty_rstate"
    using teed_emits_effect [OF c(8) c(4), of evs] s
    by (simp add: branch_state_def branch_lookups [OF b2(1)])
  show "branch_state ?w2 (nxt w + 3) = fold branch_sees evs empty_rstate"
    using teed_emits_effect [OF c(8) c(4), of evs] s
    by (simp add: branch_state_def branch_lookups [OF b2(2)])
qed

subsection \<open>\<^verbatim>\<open>finalize\<close> in a well-formed state\<close>

lemma finalize_replace_eq: "buffered w = Some b \<Longrightarrow> finalize_replace w = finalize_effect b w"
  by (simp add: finalize_replace_def finalize_effect_def)

lemma finalize_effect_fields [simp]:
  "tables (finalize_effect b w) = tables w"
  "rstates (finalize_effect b w) = rstates w"
  "nxt (finalize_effect b w) = nxt w"
  "readable (finalize_effect b w) = readable w"
  "buffered (finalize_effect b w) = Some (readable w)"
  "endPromise (finalize_effect b w) = endPromise w"
  by (simp_all add: finalize_effect_def)

lemma finalize_effect_objs_other:
  "x \<noteq> readable w \<Longrightarrow> objs (finalize_effect b w) x = objs w x"
  by (simp add: finalize_effect_def replaceRequestBody_objs_other)

lemma finalize_effect_get_prop:
  assumes "distinct (map fst (objs w b))"
  shows "get_prop (finalize_effect b w) (readable w) k =
     (case map_of (objs w b) k of
        Some v \<Rightarrow> rebind (readable w) v
      | None \<Rightarrow> get_prop w (readable w) k)"
proof -
  have "get_prop (finalize_effect b w) (readable w) = get_prop (replaceRequestBody (readable w) b w) (readable w)"
    by (intro ext) (simp add: get_prop_def finalize_effect_def)
  then show ?thesis by (simp add: replaceRequestBody_get_prop [OF assms])
qed

lemma branch_finalize_effect: "branch w t \<Longrightarrow> branch (finalize_effect b w) t"
  by (simp add: branch_def finalize_effect_objs_other)

lemma emitter_finalize_effect:
  assumes "well_formed w" "buffered w = Some b"
  shows "emitter (finalize_effect b w) (readable w)"
    and "events_of (finalize_effect b w) (readable w) = events_of w b"
proof -
  let ?R = "readable w" and ?w' = "finalize_effect b w"
  have em: "emitter w ?R" and d: "distinct (map fst (objs w ?R))"
    and b: "b = ?R \<or> branch w b"
    using assms by (simp_all add: well_formed_def)
  have db: "distinct (map fst (objs w b))"
    using b d by (auto simp: branch_def)
  note g = finalize_effect_get_prop [OF db]
  have "emitter ?w' ?R \<and> events_of ?w' ?R = events_of w b"
  proof (cases "b = ?R")
    case True
    from em obtain er where er: "events_of w ?R = Some er" "er < nxt w"
      and m: "method_this w ?R ''on'' = Some ?R"
      by (auto simp: emitter_def split: option.splits)
    from m obtain v where v: "map_of (objs w ?R) ''on'' = Some v" "is_function v" "this_of ?R v = ?R"
      by (auto simp: method_this_def get_prop_def Let_def split: option.splits if_splits)
    from er(1) have ev: "map_of (objs w ?R) ''_events'' = Some (Ref er)"
      by (auto simp: events_of_def get_prop_def split: option.splits jsval.splits)
    note g' = g [unfolded True]
    have 1: "method_this (finalize_effect ?R w) ?R ''on'' = Some ?R"
      using v by (simp add: method_this_def g' this_of_rebind Let_def)
    have 2: "events_of (finalize_effect ?R w) ?R = Some er"
      using ev by (simp add: events_of_def g' rebind_def)
    from 1 2 er show ?thesis unfolding True by (simp add: emitter_def)
  next
    case False
    with b have br: "branch w b" by simp
    then have o: "objs w b = passthrough_props (b + 1) (b + 2)" and lt: "b + 2 < nxt w"
      by (simp_all add: branch_def)
    have 1: "method_this ?w' ?R ''on'' = Some ?R"
      by (simp add: method_this_def g o passthrough_props_def rebind_def Let_def)
    have 2: "events_of ?w' ?R = Some (b + 1)"
      by (simp add: events_of_def g o passthrough_props_def rebind_def)
    from 1 2 lt branch_lookups(4) [OF br] show ?thesis by (simp add: emitter_def)
  qed
  then show "emitter ?w' ?R" and "events_of ?w' ?R = events_of w b" by simp_all
qed

lemma wf_finalize_effect:
  assumes "well_formed w" "buffered w = Some b" "endPromise w \<noteq> Waiting"
  shows "well_formed (finalize_effect b w)"
proof -
  let ?R = "readable w" and ?w' = "finalize_effect b w"
  have r: "?R < nxt w" and ok: "\<And>e. list_all (listener_ok w) (tables w e)"
    and d: "distinct (map fst (objs w ?R))"
    using assms(1) by (simp_all add: well_formed_def)
  have 2: "list_all (listener_ok ?w') (tables ?w' e)" for e
    using ok [of e] by (auto simp: list_all_iff listener_ok_def branch_finalize_effect)
  have 3: "distinct (map fst (objs ?w' ?R))"
    using d by (simp add: finalize_effect_def replaceRequestBody_distinct)
  have 4: "emitter ?w' ?R" by (rule emitter_finalize_effect(1) [OF assms(1,2)])
  show ?thesis
    unfolding well_formed_def using r 2 3 4 assms(3) by simp
qed

lemma finalize_cases:
  "finalize w =
     (case buffered w of
        None \<Rightarrow> (Fulfilled, w)
      | Some b \<Rightarrow>
          (case endPromise w of
             Waiting \<Rightarrow> (Pending, w)
           | EndSeen \<Rightarrow> (Fulfilled, finalize_effect b w)
           | ErrorSeen e \<Rightarrow> if truthy e then (Rejected e, w) else (Fulfilled, finalize_effect b w)))"
  by (simp add: finalize_def finalize_resume_def finalize_replace_eq
        split: option.splits end_state.splits)

lemma wf_finalize: "well_formed w \<Longrightarrow> well_formed (snd (finalize w))"
  by (auto simp: finalize_cases wf_finalize_effect split: option.splits end_state.splits)

lemma finalize_fulfilled:
  assumes "buffered w = Some b" "fst (finalize w) = Fulfilled"
  shows "finalize w = (Fulfilled, finalize_effect b w)" "endPromise w \<noteq> Waiting"
  using assms by (auto simp: finalize_cases split: end_state.splits if_splits)

lemma finalize_again:
  assumes "buffered w = Some b" "fst (finalize w) = Fulfilled"
  shows "finalize (finalize_effect b w) =
           (Fulfilled, finalize_effect (readable w) (finalize_effect b w))"
proof (cases "endPromise w")
  case Waiting
  with assms show ?thesis by (simp add: finalize_cases)
next
  case EndSeen
  then show ?thesis by (simp add: finalize_cases)
next
  case (ErrorSeen e)
  with assms have "\<not> truthy e" by (simp add: finalize_cases split: if_splits)
  with ErrorSeen show ?thesis by (simp add: finalize_cases)
qed

lemma finalize_effect_self_same:
  assumes "distinct (map fst (objs w (readable w)))" and that: "buffered w = Some (readable w)"
  shows "same_world w (finalize_effect (readable w) w)"
proof -
  let ?R = "readable w" and ?w' = "finalize_effect (readable w) w"
  have o: "objs ?w' ?R = objs (replaceRequestBody ?R ?R w) ?R"
    by (simp add: finalize_effect_def)
  have k: "map fst (objs ?w' ?R) = map fst (objs w ?R)"
    unfolding o by (rule replaceRequestBody_self_keys)
  have v: "case map_of (objs ?w' ?R) k of Some v' \<Rightarrow> same_value ?R v v' | None \<Rightarrow> False"
    if "(k, v) \<in> set (objs w ?R)" for k v
  proof -
    from that assms(1) have "map_of (objs w ?R) k = Some v" by simp
    then show ?thesis
      unfolding o by (simp add: replaceRequestBody_map_of [OF assms(1)] same_value_rebind)
  qed
  have "same_object ?R (objs w ?R) (objs ?w' ?R)"
    unfolding same_object_def list_all_iff using k v by auto
  with that show ?thesis
    by (simp add: same_world_def finalize_effect_objs_other)
qed

lemma replacement_shares_table:
  assumes "well_formed w" "buffered w = Some b"
  shows "events_of (finalize_effect b w) b = events_of (finalize_effect b w) (readable w)"
proof (cases "b = readable w")
  case True
  then show ?thesis by simp
next
  case False
  then have "objs (finalize_effect b w) b = objs w b"
    by (simp add: finalize_effect_objs_other)
  then have "events_of (finalize_effect b w) b = events_of w b"
    by (rule lookups_same_object(3))
  with emitter_finalize_effect(2) [OF assms] show ?thesis by simp
qed

lemma buffered_below_nxt:
  assumes "well_formed w" "buffered w = Some b"
  shows "b < nxt w"
  using assms by (auto simp: well_formed_def branch_def)

lemma clone_after_finalize:
  assumes "well_formed w1" "buffered w1 = Some (readable w1)" "b < nxt w1"
    "events_of w1 b = events_of w1 (readable w1)" "events_of w1 (readable w1) = Some e"
  shows "cloneBodyStream w1 = Inr (nxt w1, clone_effect e w1)"
    and "buffered (clone_effect e w1) = Some (nxt w1 + 3)"
    and "emits b (map Data cs) (clone_effect e w1) =
           Inr (emits_effect (readable w1) (map Data cs) (clone_effect e w1))"
    and "emits (readable w1) (map Data cs) (clone_effect e w1) =
           Inr (emits_effect (readable w1) (map Data cs) (clone_effect e w1))"
    and "received (emits_effect (readable w1) (map Data cs) (clone_effect e w1)) (nxt w1) = cs"
    and "received (emits_effect (readable w1) (map Data cs) (clone_effect e w1)) (nxt w1 + 3) = cs"
proof -
  let ?R = "readable w1"
  have i1: "input_of w1 = ?R" using assms(2) by (simp add: input_of_def)
  have e': "events_of w1 (input_of w1) = Some e" using assms(5) by (simp add: i1)
  let ?w3 = "clone_effect e w1"
  note c = clone_facts [OF assms(1) e']
  note m = clone_emits_facts [OF assms(1) e', of "map Data cs"]
  show "cloneBodyStream w1 = Inr (nxt w1, ?w3)" by (rule c(1))
  show "buffered ?w3 = Some (nxt w1 + 3)" by (rule c(2))
  have r: "?R < nxt w1" using assms(1) by (simp add: well_formed_def)
  have "objs ?w3 b = objs w1 b" by (rule c(5) [OF assms(3)])
  then have 1: "events_of ?w3 b = events_of w1 b" by (rule lookups_same_object(3))
  have "objs ?w3 ?R = objs w1 ?R" by (rule c(5) [OF r])
  then have 2: "events_of ?w3 ?R = events_of w1 ?R" by (rule lookups_same_object(3))
  have evb: "events_of ?w3 b = events_of ?w3 ?R"
    using 1 2 assms(4) by simp
  have "emits b (map Data cs) ?w3 = Inr (emits_effect b (map Data cs) ?w3)"
    using wf_emits [OF c(3), of b "map Data cs"] by simp
  then show "emits b (map Data cs) ?w3 = Inr (emits_effect ?R (map Data cs) ?w3)"
    by (simp only: emits_effect_cong [OF evb, of "map Data cs"])
  show "emits ?R (map Data cs) ?w3 = Inr (emits_effect ?R (map Data cs) ?w3)"
    using m(1) by (simp only: i1)
  have s: "branch_state (emits_effect ?R (map Data cs) ?w3) (nxt w1) =
             fold branch_sees (map Data cs) empty_rstate"
    "branch_state (emits_effect ?R (map Data cs) ?w3) (nxt w1 + 3) =
             fold branch_sees (map Data cs) empty_rstate"
    using m(3,4) by (simp_all only: i1)
  show "received (emits_effect ?R (map Data cs) ?w3) (nxt w1) = cs"
    by (simp add: received_def s(1) fold_branch_sees_data empty_rstate_def)
  show "received (emits_effect ?R (map Data cs) ?w3) (nxt w1 + 3) = cs"
    by (simp add: received_def s(2) fold_branch_sees_data empty_rstate_def)
qed

subsection \<open>Well-formed states are those a pipeline reaches\<close>

lemma wf_getCloneableBody:
  assumes "r < nxt w" "distinct (map fst (objs w r))" "method_this w r ''on'' = Some r"
    "events_of w r = Some e" "e < nxt w"
    "\<And>e. list_all (listener_ok (w\<lparr>readable := r\<rparr>)) (tables w e)"
  shows "well_formed (getCloneableBody r w)"
proof -
  let ?w0 = "w\<lparr>readable := r, buffered := None, endPromise := Waiting\<rparr>"
  have o: "objs ?w0 r = objs w r" by simp
  have m: "method_this ?w0 r ''on'' = Some r" "events_of ?w0 r = Some e"
    using assms(3,4) by (simp_all add: lookups_same_object [OF o])
  let ?w1 = "attach e EndResolve ?w0"
  have 1: "js_on r EndResolve ?w0 = Inr ?w1" by (rule js_on_eq [OF m])
  have o1: "objs ?w1 r = objs w r" by (simp add: attach_fields)
  have m1: "method_this ?w1 r ''on'' = Some r" "events_of ?w1 r = Some e"
    using assms(3,4) by (simp_all add: lookups_same_object [OF o1])
  let ?w2 = "attach e ErrorReject ?w1"
  have 2: "js_on r ErrorReject ?w1 = Inr ?w2" by (rule js_on_eq [OF m1])
  have g: "getCloneableBody r w = ?w2"
    by (simp add: getCloneableBody_def Let_def 1 2)
  have o2: "objs ?w2 r = objs w r" by (simp add: attach_fields)
  have "branch ?w2 = branch (w\<lparr>readable := r\<rparr>)"
    by (intro ext) (simp add: branch_def attach_fields)
  then have lk: "listener_ok ?w2 = listener_ok (w\<lparr>readable := r\<rparr>)"
    by (intro ext) (simp add: listener_ok_def)
  have new: "listener_ok ?w2 EndResolve" "listener_ok ?w2 ErrorReject"
    by (simp_all add: listener_ok_def)
  have a: "readable ?w2 < nxt ?w2" using assms(1) by (simp add: attach_fields)
  have b: "list_all (listener_ok ?w2) (tables ?w2 e')" for e'
    using assms(6) [of e'] assms(6) [of e] new unfolding lk [symmetric]
    by (auto simp: attach_fields)
  have c: "distinct (map fst (objs ?w2 (readable ?w2)))"
    using assms(2) by (simp add: attach_fields)
  have d: "emitter ?w2 (readable ?w2)"
    using assms(3,4,5) by (simp add: emitter_def attach_fields lookups_same_object [OF o2])
  have l: "listening ?w2"
    using assms(4) by (simp add: listening_def attach_fields lookups_same_object [OF o2])
  show ?thesis
    unfolding g well_formed_def using a b c d l by (simp add: attach_fields)
qed

lemma wf_do_op:
  assumes "well_formed w"
  shows "well_formed (do_op x w)"
proof (cases x)
  case (Emit a ev)
  with wf_emit [OF assms, of a ev] show ?thesis by simp
next
  case Clone
  from wf_input(3) [OF assms] obtain e where e: "events_of w (input_of w) = Some e"
    by auto
  from clone_facts(1,3) [OF assms e] Clone show ?thesis by simp
next
  case Finalize
  with wf_finalize [OF assms] show ?thesis by simp
qed

lemma wf_do_ops: "well_formed w \<Longrightarrow> well_formed (fold do_op xs w)"
  by (induction xs arbitrary: w) (simp_all add: wf_do_op)

subsection \<open>The example\<close>

lemma ex_body_eq:
  "ex_body = world0\<lparr>tables := (\<lambda>_. [])(1 := [EndResolve, ErrorReject])\<rparr>"
  by (simp add: ex_body_def getCloneableBody_def world0_def js_on_def method_this_def
        events_of_def get_prop_def incoming_props_def Let_def)

lemma wf_ex_body: "well_formed ex_body"
  unfolding ex_body_eq
  by (simp add: well_formed_def world0_def emitter_def listening_def method_this_def events_of_def
        get_prop_def incoming_props_def Let_def listener_ok_def)

lemma ex_events: "events_of ex_body (input_of ex_body) = Some 1"
  by (simp add: ex_body_eq world0_def input_of_def events_of_def get_prop_def incoming_props_def)

lemma ex_cloned_eq: "cloneBodyStream ex_body = Inr (3, ex_cloned)"
proof -
  have "cloneBodyStream ex_body = Inr (nxt ex_body, clone_effect 1 ex_body)"
    by (rule clone_facts(1) [OF wf_ex_body ex_events])
  moreover have "nxt ex_body = 3" by (simp add: ex_body_eq world0_def)
  ultimately show ?thesis by (simp add: ex_cloned_def)
qed

lemma ex_cloned_effect: "ex_cloned = clone_effect 1 ex_body"
  using clone_facts(1) [OF wf_ex_body ex_events] by (simp add: ex_cloned_def)

lemma wf_ex_cloned: "well_formed ex_cloned"
  unfolding ex_cloned_effect by (rule clone_facts(3) [OF wf_ex_body ex_events])

lemma ex_cloned_fields:
  "buffered ex_cloned = Some 6" "endPromise ex_cloned = Waiting" "readable ex_cloned = 0"
  unfolding ex_cloned_effect
  by (simp_all add: clone_effect_fields ex_body_eq world0_def)

lemma ex_ended_effect: "ex_ended = emits_effect 0 [Data [1, 2], Data [3], End] ex_cloned"
  using wf_emits [OF wf_ex_cloned, of 0 "[Data [1, 2], Data [3], End]"]
  by (simp add: ex_ended_def)

lemma wf_ex_ended: "well_formed ex_ended"
  unfolding ex_ended_effect using wf_emits [OF wf_ex_cloned] by simp

lemma ex_ended_fields:
  "buffered ex_ended = Some 6" "readable ex_ended = 0" "endPromise ex_ended = EndSeen"
  "distinct (map fst (objs ex_ended 6))" "map_of (objs ex_ended 6) ''push'' = Some (Fn ''push'')"
  by code_simp+

subsection \<open>Cloning\<close>

text \<open>
  Claim C1. In a well-formed state the input, which is \<^verbatim>\<open>buffered\<close> or, when that
  is \<^verbatim>\<open>null\<close>, the original stream, emits the chunks \<open>pre\<close>; then
  \<^verbatim>\<open>cloneBodyStream()\<close> is called; then the input emits the chunks \<open>cs\<close>. No call
  throws. The call returns a branch \<open>p1\<close> and stores another branch \<open>p2\<close> in
  \<^verbatim>\<open>buffered\<close>. Right after the call neither branch has received anything, so
  nothing of \<open>pre\<close> reaches them; after \<open>cs\<close> each has received exactly \<open>cs\<close>, in
  the order emitted.
\<close>

theorem cloneBodyStream_tees_in_order:
  assumes "well_formed w0"
  shows "\<exists>w p1 p2 w1 w2.
           emits (input_of w0) (map Data pre) w0 = Inr w \<and>
           cloneBodyStream w = Inr (p1, w1) \<and> buffered w1 = Some p2 \<and> p1 \<noteq> p2 \<and>
           received w1 p1 = [] \<and> received w1 p2 = [] \<and>
           emits (input_of w0) (map Data cs) w1 = Inr w2 \<and>
           received w2 p1 = cs \<and> received w2 p2 = cs"
proof -
  let ?i = "input_of w0"
  let ?w = "emits_effect ?i (map Data pre) w0"
  have e0: "emits ?i (map Data pre) w0 = Inr ?w" and well_formed: "well_formed ?w"
    using wf_emits [OF assms] by simp_all
  have sh: "same_heap w0 ?w" by simp
  then have "buffered ?w = buffered w0" "readable ?w = readable w0"
    by (simp_all add: same_heap_def)
  then have i: "input_of ?w = ?i"
    by (simp add: input_of_def split: option.splits)
  from wf_input(3) [OF well_formed] obtain e where e: "events_of ?w (input_of ?w) = Some e"
    by auto
  let ?w1 = "clone_effect e ?w"
  let ?w2 = "emits_effect ?i (map Data cs) ?w1"
  note c = clone_facts [OF well_formed e, unfolded i]
  note m = clone_emits_facts [OF well_formed e, of "map Data cs", unfolded i]
  have r1: "received ?w1 (nxt ?w) = []" "received ?w1 (nxt ?w + 3) = []"
    using c(6,7) by (simp_all add: received_def empty_rstate_def)
  have r2: "received ?w2 (nxt ?w) = cs" "received ?w2 (nxt ?w + 3) = cs"
    using m(3,4) by (simp_all add: received_def fold_branch_sees_data empty_rstate_def)
  have ne: "nxt ?w \<noteq> nxt ?w + 3" by simp
  show ?thesis
    apply (rule exI [of _ ?w], rule exI [of _ "nxt ?w"], rule exI [of _ "nxt ?w + 3"])
    apply (rule exI [of _ ?w1], rule exI [of _ ?w2])
    apply (intro conjI)
    apply (rule e0, rule c(1), rule c(2), rule ne, rule r1(1), rule r1(2))
    apply (rule m(1), rule r2(1), rule r2(2))
    done
qed

theorem cloneBodyStream_tees_in_order_witness:
  "well_formed ex_body \<and>
   (\<exists>w p1 p2 w1 w2.
      emits (input_of ex_body) (map Data [[9]]) ex_body = Inr w \<and>
      cloneBodyStream w = Inr (p1, w1) \<and> buffered w1 = Some p2 \<and> p1 \<noteq> p2 \<and>
      received w1 p1 = [] \<and> received w1 p2 = [] \<and>
      emits (input_of ex_body) (map Data [[1, 2], [3]]) w1 = Inr w2 \<and>
      received w2 p1 = [[1, 2], [3]] \<and> received w2 p2 = [[1, 2], [3]])"
  by (intro conjI wf_ex_body cloneBodyStream_tees_in_order [OF wf_ex_body])

text \<open>
  Claim C10. After \<^verbatim>\<open>cloneBodyStream()\<close> the input emits any events but
  \<^verbatim>\<open>end\<close>: chunks, errors and \<^verbatim>\<open>close\<close>, in any number and order. Then neither
  branch has been ended and neither has signalled an error: the call registers a listener
  for \<^verbatim>\<open>data\<close> and one for \<^verbatim>\<open>end\<close> on the input, and none for
  \<^verbatim>\<open>error\<close>.
\<close>

theorem branches_stay_open_without_end:
  assumes "well_formed w" "End \<notin> set evs"
  shows "\<exists>p1 p2 w1 w2.
           cloneBodyStream w = Inr (p1, w1) \<and> buffered w1 = Some p2 \<and>
           emits (input_of w) evs w1 = Inr w2 \<and>
           \<not> ended (branch_state w2 p1) \<and> \<not> failed (branch_state w2 p1) \<and>
           \<not> ended (branch_state w2 p2) \<and> \<not> failed (branch_state w2 p2)"
proof -
  from wf_input(3) [OF assms(1)] obtain e where e: "events_of w (input_of w) = Some e"
    by auto
  let ?w1 = "clone_effect e w"
  let ?w2 = "emits_effect (input_of w) evs ?w1"
  note c = clone_facts [OF assms(1) e]
  note m = clone_emits_facts [OF assms(1) e, of evs]
  have "\<not> ended empty_rstate" by (simp add: empty_rstate_def)
  from fold_branch_sees_open [OF assms(2) this]
  have o: "\<not> ended (fold branch_sees evs empty_rstate)" "\<not> failed (fold branch_sees evs empty_rstate)"
    by (simp_all add: empty_rstate_def)
  have o1: "\<not> ended (branch_state ?w2 (nxt w))" "\<not> failed (branch_state ?w2 (nxt w))"
    using o by (simp_all add: m(3))
  have o2: "\<not> ended (branch_state ?w2 (nxt w + 3))" "\<not> failed (branch_state ?w2 (nxt w + 3))"
    using o by (simp_all add: m(4))
  show ?thesis
    apply (rule exI [of _ "nxt w"], rule exI [of _ "nxt w + 3"])
    apply (rule exI [of _ ?w1], rule exI [of _ ?w2])
    apply (intro conjI)
    apply (rule c(1), rule c(2), rule m(1), rule o1(1), rule o1(2), rule o2(1), rule o2(2))
    done
qed

theorem branches_stay_open_without_end_witness:
  "well_formed ex_body \<and> End \<notin> set [Data [1], Error (Ref 9), Close :: chunk event] \<and>
   (\<exists>p1 p2 w1 w2.
      cloneBodyStream ex_body = Inr (p1, w1) \<and> buffered w1 = Some p2 \<and>
      emits (input_of ex_body) [Data [1], Error (Ref 9), Close] w1 = Inr w2 \<and>
      \<not> ended (branch_state w2 p1) \<and> \<not> failed (branch_state w2 p1) \<and>
      \<not> ended (branch_state w2 p2) \<and> \<not> failed (branch_state w2 p2))"
proof -
  have h: "End \<notin> set [Data [1], Error (Ref 9), Close :: chunk event]" by simp
  show ?thesis
    by (rule conjI [OF wf_ex_body conjI [OF h branches_stay_open_without_end [OF wf_ex_body h]]])
qed

subsection \<open>Finalizing\<close>

text \<open>
  Claim C9. While \<^verbatim>\<open>buffered\<close> is \<^verbatim>\<open>null\<close>, \<^verbatim>\<open>finalize()\<close> is fulfilled at
  once and changes nothing: the heap and the variables of the closure are after the call
  what they were before it, and a later \<^verbatim>\<open>cloneBodyStream()\<close> still reads from the
  original stream.
\<close>

theorem finalize_without_clone_is_noop:
  "buffered w = None \<Longrightarrow> finalize w = (Fulfilled, w) \<and> input_of w = readable w"
  by (simp add: finalize_def input_of_def)

theorem finalize_without_clone_is_noop_witness:
  "buffered ex_body = None \<and> finalize ex_body = (Fulfilled, ex_body) \<and> input_of ex_body = readable ex_body"
proof -
  have h: "buffered ex_body = None" by (simp add: ex_body_eq world0_def)
  show ?thesis using h finalize_without_clone_is_noop [OF h] by simp
qed

text \<open>
  Claim C2, as amended. The original stream has ended and \<^verbatim>\<open>buffered\<close> is the
  replacement \<open>b\<close>. \<^verbatim>\<open>finalize()\<close> is fulfilled, and every property \<open>k\<close> of
  \<open>b\<close>, of value \<open>v\<close>, is afterwards a property of the original object: with the
  value \<open>v\<close> when \<open>v\<close> is not a function, and with \<^verbatim>\<open>v.bind(original)\<close> when it
  is. So a method that was not bound before runs, called on the original object, with
  \<^verbatim>\<open>this\<close> the original object and not the replacement; a method that was bound
  before keeps the receiver it had.
\<close>

theorem finalize_binds_methods_to_original:
  assumes "buffered w = Some b" "distinct (map fst (objs w b))" "endPromise w = EndSeen"
    "map_of (objs w b) k = Some v"
  shows "fst (finalize w) = Fulfilled \<and>
         map_of (objs (snd (finalize w)) (readable w)) k =
           Some (if is_function v then Bound v (readable w) else v) \<and>
         method_this (snd (finalize w)) (readable w) k =
           (case v of
              Fn f \<Rightarrow> Some (readable w)
            | Bound u a \<Rightarrow> Some (this_of a u)
            | _ \<Rightarrow> None)"
proof -
  have f: "finalize w = (Fulfilled, finalize_effect b w)"
    using assms(1,3) by (simp add: finalize_cases)
  have m: "map_of (objs (finalize_effect b w) (readable w)) k = Some (rebind (readable w) v)"
    using assms(4) by (simp add: finalize_effect_def replaceRequestBody_map_of [OF assms(2)])
  have g: "get_prop (finalize_effect b w) (readable w) k = rebind (readable w) v"
    using m by (simp add: get_prop_def)
  show ?thesis
    unfolding f using m g by (cases v) (simp_all add: method_this_def Let_def rebind_def)
qed

theorem finalize_binds_methods_to_original_witness:
  "buffered ex_ended = Some 6 \<and> distinct (map fst (objs ex_ended 6)) \<and>
   endPromise ex_ended = EndSeen \<and> map_of (objs ex_ended 6) ''push'' = Some (Fn ''push'') \<and>
   fst (finalize ex_ended) = Fulfilled \<and>
   map_of (objs (snd (finalize ex_ended)) (readable ex_ended)) ''push'' =
     Some (Bound (Fn ''push'') (readable ex_ended)) \<and>
   method_this (snd (finalize ex_ended)) (readable ex_ended) ''push'' = Some (readable ex_ended)"
  using ex_ended_fields
    finalize_binds_methods_to_original [OF ex_ended_fields(1,4,3,5)]
  by simp

text \<open>
  Claim C2 as stated fails. In the example the replacement is the object at 6 and the
  original the object at 0. After \<^verbatim>\<open>finalize()\<close> the \<^verbatim>\<open>push\<close> of the original
  is the replacement's \<^verbatim>\<open>push\<close> bound to 0: it runs with \<^verbatim>\<open>this\<close> the object
  at 0, not the object at 6.
\<close>

theorem methods_bound_to_original_not_replacement:
  "buffered ex_ended = Some 6 \<and> readable ex_ended = 0 \<and> endPromise ex_ended = EndSeen \<and>
   get_prop ex_ended 6 ''push'' = Fn ''push'' \<and>
   fst (finalize ex_ended) = Fulfilled \<and>
   get_prop (snd (finalize ex_ended)) 0 ''push'' = Bound (Fn ''push'') 0 \<and>
   method_this (snd (finalize ex_ended)) 0 ''push'' = Some 0 \<and>
   method_this (snd (finalize ex_ended)) 0 ''push'' \<noteq> Some 6"
  by code_simp

text \<open>
  Claim C3. A clone was taken and the promise is pending: the original stream has
  neither ended nor failed. It now emits \<^verbatim>\<open>error\<close> with the
  \<^verbatim>\<open>Error\<close> object \<open>e\<close>. Then \<^verbatim>\<open>finalize()\<close>, called now or resumed
  from its \<^verbatim>\<open>await\<close>, is rejected with \<open>e\<close> and changes nothing: no property of
  any object, and not \<^verbatim>\<open>buffered\<close>. Whatever the stream emits afterwards, it stays
  so.
\<close>

theorem finalize_rejects_on_stream_error:
  assumes "well_formed w" "buffered w = Some b" "endPromise w = Waiting" "is_object e"
  shows "\<exists>w1 w2. emit (readable w) (Error e) w = Inr w1 \<and>
           finalize w1 = (Rejected e, w1) \<and> finalize_resume w1 = (Rejected e, w1) \<and>
           objs w1 = objs w \<and> buffered w1 = Some b \<and>
           emits (readable w) evs w1 = Inr w2 \<and> finalize w2 = (Rejected e, w2) \<and>
           objs w2 = objs w \<and> buffered w2 = Some b"
proof -
  let ?R = "readable w"
  let ?w1 = "emit_effect ?R (Error e) w"
  let ?w2 = "emits_effect ?R evs ?w1"
  have t: "truthy e" using assms(4) by (cases e) simp_all
  have li: "listening w" using assms(1,3) by (simp add: well_formed_def)
  have e1: "emit ?R (Error e) w = Inr ?w1" and wf1: "well_formed ?w1"
    using wf_emit [OF assms(1)] by simp_all
  have p1: "endPromise ?w1 = ErrorSeen e"
    by (rule emit_effect_error [OF li assms(3)])
  have sh1: "same_heap w ?w1" by simp
  have e2: "emits ?R evs ?w1 = Inr ?w2"
    using wf_emits [OF wf1] by simp
  have p2: "endPromise ?w2 = ErrorSeen e"
    using emits_effect_settled [of ?w1 ?R evs] p1 by simp
  have sh2: "same_heap w ?w2"
    by (rule same_heap_trans [OF sh1 same_heap_emits_effect])
  have b1: "buffered ?w1 = Some b" "objs ?w1 = objs w"
    using sh1 assms(2) by (simp_all add: same_heap_def)
  have b2: "buffered ?w2 = Some b" "objs ?w2 = objs w"
    using sh2 assms(2) by (simp_all add: same_heap_def)
  have f1: "finalize ?w1 = (Rejected e, ?w1)" "finalize_resume ?w1 = (Rejected e, ?w1)"
    using p1 b1 t by (simp_all add: finalize_def finalize_resume_def)
  have f2: "finalize ?w2 = (Rejected e, ?w2)"
    using p2 b2 t by (simp add: finalize_def finalize_resume_def)
  show ?thesis
    apply (rule exI [of _ ?w1], rule exI [of _ ?w2])
    apply (intro conjI)
    apply (rule e1, rule f1(1), rule f1(2), rule b1(2), rule b1(1))
    apply (rule e2, rule f2, rule b2(2), rule b2(1))
    done
qed

theorem finalize_rejects_on_stream_error_witness:
  "well_formed ex_cloned \<and> buffered ex_cloned = Some 6 \<and> endPromise ex_cloned = Waiting \<and>
   is_object (Ref 9) \<and>
   (\<exists>w1 w2. emit (readable ex_cloned) (Error (Ref 9)) ex_cloned = Inr w1 \<and>
      finalize w1 = (Rejected (Ref 9), w1) \<and> finalize_resume w1 = (Rejected (Ref 9), w1) \<and>
      objs w1 = objs ex_cloned \<and> buffered w1 = Some 6 \<and>
      emits (readable ex_cloned) [Data [7], End] w1 = Inr w2 \<and>
      finalize w2 = (Rejected (Ref 9), w2) \<and>
      objs w2 = objs ex_cloned \<and> buffered w2 = Some 6)"
proof -
  have t: "is_object (Ref 9)" by simp
  show ?thesis
    by (intro conjI wf_ex_cloned ex_cloned_fields(1,2) t
          finalize_rejects_on_stream_error [OF wf_ex_cloned ex_cloned_fields(1,2) t])
qed

text \<open>
  Claim C8, as amended. After a \<^verbatim>\<open>finalize()\<close> that performed the substitution,
  \<^verbatim>\<open>buffered\<close> is the original object. A second \<^verbatim>\<open>finalize()\<close> is fulfilled as
  well and leaves \<^verbatim>\<open>buffered\<close>, the promise, every listener table, every readable
  state and every object but the original as they are; the original object keeps its
  keys, its values that are not functions and, for each function, its target and its
  receiver, \<^verbatim>\<open>bind\<close> having wrapped it once more (\<open>same_world\<close>). A
  \<^verbatim>\<open>cloneBodyStream()\<close> after the first \<^verbatim>\<open>finalize()\<close> reads from the
  replacement: the chunks \<open>cs\<close> that the replacement \<open>b\<close> emits, which are those the
  original object now emits, reach both new branches, in order.
\<close>

theorem finalize_twice_then_clone:
  assumes "well_formed w" "buffered w = Some b" "fst (finalize w) = Fulfilled"
  shows "\<exists>w1 w2 w3 w4 q1 q2.
           finalize w = (Fulfilled, w1) \<and> buffered w1 = Some (readable w) \<and>
           readable w1 = readable w \<and>
           finalize w1 = (Fulfilled, w2) \<and> same_world w1 w2 \<and>
           cloneBodyStream w1 = Inr (q1, w3) \<and> buffered w3 = Some q2 \<and>
           emits b (map Data cs) w3 = Inr w4 \<and>
           emits (readable w) (map Data cs) w3 = Inr w4 \<and>
           received w4 q1 = cs \<and> received w4 q2 = cs"
proof -
  let ?R = "readable w"
  let ?w1 = "finalize_effect b w"
  let ?w2 = "finalize_effect ?R ?w1"
  note ff = finalize_fulfilled [OF assms(2,3)]
  have wf1: "well_formed ?w1" by (rule wf_finalize_effect [OF assms(1,2) ff(2)])
  have b1: "buffered ?w1 = Some ?R" "readable ?w1 = ?R" by simp_all
  have b1': "buffered ?w1 = Some (readable ?w1)" by simp
  have f2: "finalize ?w1 = (Fulfilled, ?w2)"
    by (rule finalize_again [OF assms(2,3)])
  have d1: "distinct (map fst (objs ?w1 (readable ?w1)))"
    using wf1 by (simp add: well_formed_def)
  have "same_world ?w1 (finalize_effect (readable ?w1) ?w1)"
    by (rule finalize_effect_self_same [OF d1 b1'])
  then have sw: "same_world ?w1 ?w2" by (simp only: b1(2))
  have lt: "b < nxt ?w1"
    using buffered_below_nxt [OF assms(1,2)] by simp
  have sh: "events_of ?w1 b = events_of ?w1 (readable ?w1)"
    using replacement_shares_table [OF assms(1,2)] by simp
  from wf_input(3) [OF wf1] obtain e where e: "events_of ?w1 (readable ?w1) = Some e"
    by (auto simp: input_of_def)
  note c = clone_after_finalize [OF wf1 b1' lt sh e, unfolded b1(2)]
  let ?w3 = "clone_effect e ?w1"
  let ?w4 = "emits_effect ?R (map Data cs) ?w3"
  show ?thesis
    apply (rule exI [of _ ?w1], rule exI [of _ ?w2], rule exI [of _ ?w3], rule exI [of _ ?w4])
    apply (rule exI [of _ "nxt ?w1"], rule exI [of _ "nxt ?w1 + 3"])
    apply (intro conjI)
    apply (rule ff(1), rule b1(1), rule b1(2), rule f2, rule sw, rule c(1), rule c(2))
    apply (rule c(3), rule c(4), rule c(5), rule c(6))
    done
qed

theorem finalize_twice_then_clone_witness:
  "well_formed ex_ended \<and> buffered ex_ended = Some 6 \<and> fst (finalize ex_ended) = Fulfilled \<and>
   (\<exists>w1 w2 w3 w4 q1 q2.
      finalize ex_ended = (Fulfilled, w1) \<and> buffered w1 = Some (readable ex_ended) \<and>
      readable w1 = readable ex_ended \<and>
      finalize w1 = (Fulfilled, w2) \<and> same_world w1 w2 \<and>
      cloneBodyStream w1 = Inr (q1, w3) \<and> buffered w3 = Some q2 \<and>
      emits 6 (map Data [[1, 2], [3]]) w3 = Inr w4 \<and>
      emits (readable ex_ended) (map Data [[1, 2], [3]]) w3 = Inr w4 \<and>
      received w4 q1 = [[1, 2], [3]] \<and> received w4 q2 = [[1, 2], [3]])"
proof -
  have f: "fst (finalize ex_ended) = Fulfilled" by code_simp
  show ?thesis
    by (intro conjI wf_ex_ended ex_ended_fields(1) f
          finalize_twice_then_clone [OF wf_ex_ended ex_ended_fields(1) f])
qed

text \<open>
  Claim C8 as stated fails if the same final state is taken literally. In the example
  the second \<^verbatim>\<open>finalize()\<close> binds \<^verbatim>\<open>setTimeout\<close>, which the original object had
  before the substitution and the first call left as it was, and wraps \<^verbatim>\<open>on\<close> a
  second time: the properties of the original object after two calls are not its
  properties after one.
\<close>

theorem second_finalize_rebinds:
  "buffered ex_ended = Some 6 \<and> fst (finalize ex_ended) = Fulfilled \<and>
   fst (finalize (snd (finalize ex_ended))) = Fulfilled \<and>
   get_prop (snd (finalize ex_ended)) 0 ''setTimeout'' = Fn ''setTimeout'' \<and>
   get_prop (snd (finalize (snd (finalize ex_ended)))) 0 ''setTimeout'' =
     Bound (Fn ''setTimeout'') 0 \<and>
   get_prop (snd (finalize ex_ended)) 0 ''on'' = Bound (Fn ''on'') 0 \<and>
   get_prop (snd (finalize (snd (finalize ex_ended)))) 0 ''on'' =
     Bound (Bound (Fn ''on'') 0) 0 \<and>
   objs (snd (finalize (snd (finalize ex_ended)))) 0 \<noteq> objs (snd (finalize ex_ended)) 0"
  by code_simp

end
